theory Spec2Isabelle
  imports Main "HOL-Library.Word"
begin

unbundle bit_operations_syntax

section \<open>Data: bytes, JavaScript strings, JSON values\<close>

text \<open>
  AriGit.mjs keeps all of its state in files and reaches them through four libraries of
  the Node.js platform: \<^verbatim>\<open>fs/promises\<close>, \<^verbatim>\<open>path\<close>, \<^verbatim>\<open>crypto\<close> and the built-in
  \<^verbatim>\<open>JSON\<close>. A file holds bytes; a JavaScript string is a sequence of 16-bit code units;
  \<^verbatim>\<open>JSON.parse\<close> yields a dynamically typed value. The library calls are modelled from
  their standards (UTF-8 as the WHATWG decoder reads it, FIPS 180-4 for SHA-1, ECMA-262 for
  \<^verbatim>\<open>JSON\<close>, the POSIX flavour of \<^verbatim>\<open>path.join\<close>), the methods of the class \<^verbatim>\<open>AriGit\<close> from
  the source, statement by statement.
\<close>

type_synonym byte = "8 word"
type_synonym bytes = "byte list"
type_synonym unit16 = "16 word"
type_synonym jsstring = "unit16 list"

text \<open>A string literal of the source, as code units (the literals of the source are ASCII).\<close>

definition js :: "string \<Rightarrow> jsstring" where
  "js s = map of_char s"

datatype json =
    JNull
  | JBool bool
  | JNum jsstring
  | JStr jsstring
  | JArr "json list"
  | JObj "(jsstring \<times> json) list"

text \<open>
  A number is kept as its literal. \<^verbatim>\<open>JSON.stringify\<close> prints a number read from a canonical
  integer literal below \<open>2^53\<close> as that literal; other literals (\<^verbatim>\<open>1.0\<close>, \<^verbatim>\<open>1e2\<close>, \<^verbatim>\<open>-0\<close>) are
  re-rendered by JavaScript from the floating-point value, which this model does not follow.
  AriGit itself never writes a number. A value of type \<open>json option\<close> is a JavaScript value
  that may be \<^verbatim>\<open>undefined\<close> (\<open>None\<close>).
\<close>

datatype error = ENOENT | EISDIR | SyntaxError | TypeError

subsection \<open>UTF-8, as \<^verbatim>\<open>fs.readFile(p, {encoding: 'utf-8'})\<close> and \<^verbatim>\<open>fs.writeFile(p, string)\<close> use it\<close>

definition is_high :: "unit16 \<Rightarrow> bool" where
  "is_high u \<longleftrightarrow> 0xD800 \<le> u \<and> u \<le> 0xDBFF"

definition is_low :: "unit16 \<Rightarrow> bool" where
  "is_low u \<longleftrightarrow> 0xDC00 \<le> u \<and> u \<le> 0xDFFF"

definition enc_cp :: "nat \<Rightarrow> bytes" where
  "enc_cp cp =
     (if cp < 0x80 then [of_nat cp]
      else if cp < 0x800 then [of_nat (0xC0 + cp div 64), of_nat (0x80 + cp mod 64)]
      else if cp < 0x10000 then
        [of_nat (0xE0 + cp div 4096), of_nat (0x80 + cp div 64 mod 64), of_nat (0x80 + cp mod 64)]
      else
        [of_nat (0xF0 + cp div 262144), of_nat (0x80 + cp div 4096 mod 64),
         of_nat (0x80 + cp div 64 mod 64), of_nat (0x80 + cp mod 64)])"

text \<open>U+FFFD, which stands for a code unit or a byte that has no encoding.\<close>

definition replacement_bytes :: bytes where
  "replacement_bytes = [0xEF, 0xBF, 0xBD]"

text \<open>String to bytes: a surrogate pair is one code point, a lone surrogate becomes U+FFFD.\<close>

fun utf8_encode :: "jsstring \<Rightarrow> bytes" where
  "utf8_encode [] = []"
| "utf8_encode (u # us) =
     (if is_high u then
        (case us of
           [] \<Rightarrow> replacement_bytes
         | v # vs \<Rightarrow>
             if is_low v
             then enc_cp (0x10000 + (unat u - 0xD800) * 0x400 + (unat v - 0xDC00)) @ utf8_encode vs
             else replacement_bytes @ utf8_encode us)
      else if is_low u then replacement_bytes @ utf8_encode us
      else enc_cp (unat u) @ utf8_encode us)"

definition units_of_cp :: "nat \<Rightarrow> jsstring" where
  "units_of_cp cp =
     (if cp < 0x10000 then [of_nat cp]
      else [of_nat (0xD800 + (cp - 0x10000) div 0x400), of_nat (0xDC00 + (cp - 0x10000) mod 0x400)])"

definition cont :: "byte \<Rightarrow> bool" where
  "cont b \<longleftrightarrow> 0x80 \<le> b \<and> b \<le> 0xBF"

text \<open>The range of the second byte after the lead byte \<open>b\<close> of a 3- or 4-byte sequence.\<close>

definition second_ok :: "byte \<Rightarrow> byte \<Rightarrow> bool" where
  "second_ok b c \<longleftrightarrow>
     (if b = 0xE0 then 0xA0 \<le> c \<and> c \<le> 0xBF
      else if b = 0xED then 0x80 \<le> c \<and> c \<le> 0x9F
      else if b = 0xF0 then 0x90 \<le> c \<and> c \<le> 0xBF
      else if b = 0xF4 then 0x80 \<le> c \<and> c \<le> 0x8F
      else cont c)"

text \<open>
  Bytes to string. A byte that cannot start or continue a sequence yields U+FFFD and
  decoding resumes at the byte that broke the sequence; no byte sequence makes the read fail.
\<close>

fun utf8_decode :: "bytes \<Rightarrow> jsstring" where
  "utf8_decode [] = []"
| "utf8_decode (b # bs) =
     (if b < 0x80 then ucast b # utf8_decode bs
      else if 0xC2 \<le> b \<and> b \<le> 0xDF then
        (case bs of
           [] \<Rightarrow> [0xFFFD]
         | c # cs \<Rightarrow>
             if cont c
             then units_of_cp ((unat b - 0xC0) * 64 + (unat c - 0x80)) @ utf8_decode cs
             else 0xFFFD # utf8_decode bs)
      else if 0xE0 \<le> b \<and> b \<le> 0xEF then
        (case bs of
           [] \<Rightarrow> [0xFFFD]
         | c # cs \<Rightarrow>
             if second_ok b c then
               (case cs of
                  [] \<Rightarrow> [0xFFFD]
                | d # ds \<Rightarrow>
                    if cont d
                    then units_of_cp ((unat b - 0xE0) * 4096 + (unat c - 0x80) * 64 + (unat d - 0x80))
                           @ utf8_decode ds
                    else 0xFFFD # utf8_decode cs)
             else 0xFFFD # utf8_decode bs)
      else if 0xF0 \<le> b \<and> b \<le> 0xF4 then
        (case bs of
           [] \<Rightarrow> [0xFFFD]
         | c # cs \<Rightarrow>
             if second_ok b c then
               (case cs of
                  [] \<Rightarrow> [0xFFFD]
                | d # ds \<Rightarrow>
                    if cont d then
                      (case ds of
                         [] \<Rightarrow> [0xFFFD]
                       | e # es \<Rightarrow>
                           if cont e
                           then units_of_cp ((unat b - 0xF0) * 262144 + (unat c - 0x80) * 4096
                                             + (unat d - 0x80) * 64 + (unat e - 0x80))
                                  @ utf8_decode es
                           else 0xFFFD # utf8_decode ds)
                    else 0xFFFD # utf8_decode cs)
             else 0xFFFD # utf8_decode bs)
      else 0xFFFD # utf8_decode bs)"

subsection \<open>SHA-1, as \<^verbatim>\<open>crypto.createHash('sha1')\<close> computes it\<close>

definition rotl32 :: "nat \<Rightarrow> 32 word \<Rightarrow> 32 word" where
  "rotl32 n w = push_bit n w OR drop_bit (32 - n) w"

definition be64 :: "nat \<Rightarrow> bytes" where
  "be64 n = map (\<lambda>i. of_nat (n div 2 ^ (8 * i))) [7, 6, 5, 4, 3, 2, 1, 0]"

text \<open>The message, a one bit, zero bits up to 56 modulo 64 bytes, the bit length on 8 bytes.\<close>

definition sha1_pad :: "bytes \<Rightarrow> bytes" where
  "sha1_pad m = m @ [0x80] @ replicate ((119 - length m mod 64) mod 64) 0 @ be64 (8 * length m)"

definition be32 :: "bytes \<Rightarrow> 32 word" where
  "be32 bs = foldl (\<lambda>w b. push_bit 8 w OR ucast b) 0 bs"

text \<open>The sixteen big-endian words of a block.\<close>

fun sha1_words :: "bytes \<Rightarrow> 32 word list" where
  "sha1_words (a # b # c # d # rest) = be32 [a, b, c, d] # sha1_words rest"
| "sha1_words rest = []"

text \<open>
  The message schedule, from a window of the last sixteen words: the word of round
  \<open>t \<ge> 16\<close> is the exclusive or of the words of the rounds \<open>t - 3\<close>, \<open>t - 8\<close>, \<open>t - 14\<close> and
  \<open>t - 16\<close>, rotated left by one bit.
\<close>

fun sha1_schedule :: "nat \<Rightarrow> 32 word list \<Rightarrow> 32 word list" where
  "sha1_schedule 0 w = []"
| "sha1_schedule (Suc n) w =
     hd w # sha1_schedule n (tl w @ [rotl32 1 (w ! 13 XOR w ! 8 XOR w ! 2 XOR w ! 0)])"

definition sha1_f :: "nat \<Rightarrow> 32 word \<Rightarrow> 32 word \<Rightarrow> 32 word \<Rightarrow> 32 word" where
  "sha1_f t b c d =
     (if t < 20 then (b AND c) OR (NOT b AND d)
      else if t < 40 then b XOR c XOR d
      else if t < 60 then (b AND c) OR (b AND d) OR (c AND d)
      else b XOR c XOR d)"

definition sha1_k :: "nat \<Rightarrow> 32 word" where
  "sha1_k t =
     (if t < 20 then 0x5A827999 else if t < 40 then 0x6ED9EBA1
      else if t < 60 then 0x8F1BBCDC else 0xCA62C1D6)"

type_synonym sha1_state = "32 word \<times> 32 word \<times> 32 word \<times> 32 word \<times> 32 word"

text \<open>The rounds from round \<open>t\<close> on, one for each word of the schedule that is left.\<close>

fun sha1_rounds :: "nat \<Rightarrow> sha1_state \<Rightarrow> 32 word list \<Rightarrow> sha1_state" where
  "sha1_rounds t s [] = s"
| "sha1_rounds t (a, b, c, d, e) (w # ws) =
     sha1_rounds (Suc t) (rotl32 5 a + sha1_f t b c d + e + sha1_k t + w, a, rotl32 30 b, c, d) ws"

definition sha1_block :: "sha1_state \<Rightarrow> bytes \<Rightarrow> sha1_state" where
  "sha1_block h blk =
     (case h of (h0, h1, h2, h3, h4) \<Rightarrow>
        (case sha1_rounds 0 h (sha1_schedule 80 (sha1_words blk)) of
           (a, b, c, d, e) \<Rightarrow> (h0 + a, h1 + b, h2 + c, h3 + d, h4 + e)))"

fun sha1_blocks :: "nat \<Rightarrow> bytes \<Rightarrow> bytes list" where
  "sha1_blocks 0 bs = []"
| "sha1_blocks (Suc n) bs = take 64 bs # sha1_blocks n (drop 64 bs)"

definition sha1 :: "bytes \<Rightarrow> sha1_state" where
  "sha1 m =
     foldl sha1_block (0x67452301, 0xEFCDAB89, 0x98BADCFE, 0x10325476, 0xC3D2E1F0)
       (sha1_blocks (length (sha1_pad m) div 64) (sha1_pad m))"

text \<open>\<^verbatim>\<open>digest('hex')\<close>: lower-case hexadecimal digits, most significant first.\<close>

definition hexdigit :: "nat \<Rightarrow> unit16" where
  "hexdigit n = (if n < 10 then of_nat (48 + n) else of_nat (87 + n))"

definition hex32 :: "32 word \<Rightarrow> jsstring" where
  "hex32 w = map (\<lambda>i. hexdigit (unat (drop_bit i w AND 0xF))) [28, 24, 20, 16, 12, 8, 4, 0]"

definition sha1_hex :: "bytes \<Rightarrow> jsstring" where
  "sha1_hex m =
     (case sha1 m of (a, b, c, d, e) \<Rightarrow> hex32 a @ hex32 b @ hex32 c @ hex32 d @ hex32 e)"

definition is_hex :: "unit16 \<Rightarrow> bool" where
  "is_hex u \<longleftrightarrow> (0x30 \<le> u \<and> u \<le> 0x39) \<or> (0x61 \<le> u \<and> u \<le> 0x66)"

subsection \<open>\<^verbatim>\<open>JSON.stringify\<close>\<close>

definition hex4 :: "unit16 \<Rightarrow> jsstring" where
  "hex4 u = map (\<lambda>i. hexdigit (unat (drop_bit i u AND 0xF))) [12, 8, 4, 0]"

text \<open>
  The two-character escapes of ECMA-262 (backspace, tab, line feed, form feed, carriage
  return, the double quote 0x22 and the backslash 0x5C), \<^verbatim>\<open>\uXXXX\<close> for the other control
  characters, every other code unit as it is.
\<close>

definition escape_unit :: "unit16 \<Rightarrow> jsstring" where
  "escape_unit u =
     (if u = 0x08 then [0x5C, 0x62]
      else if u = 0x09 then [0x5C, 0x74]
      else if u = 0x0A then [0x5C, 0x6E]
      else if u = 0x0C then [0x5C, 0x66]
      else if u = 0x0D then [0x5C, 0x72]
      else if u = 0x22 then [0x5C, 0x22]
      else if u = 0x5C then [0x5C, 0x5C]
      else if u < 0x20 then [0x5C, 0x75] @ hex4 u
      else [u])"

text \<open>A surrogate pair is copied, a lone surrogate is escaped (well-formed \<^verbatim>\<open>JSON.stringify\<close>).\<close>

fun quote_units :: "jsstring \<Rightarrow> jsstring" where
  "quote_units [] = []"
| "quote_units (u # us) =
     (if is_high u then
        (case us of
           [] \<Rightarrow> [0x5C, 0x75] @ hex4 u
         | v # vs \<Rightarrow>
             if is_low v then u # v # quote_units vs
             else [0x5C, 0x75] @ hex4 u @ quote_units us)
      else if is_low u then [0x5C, 0x75] @ hex4 u @ quote_units us
      else escape_unit u @ quote_units us)"

definition quoteJSON :: "jsstring \<Rightarrow> jsstring" where
  "quoteJSON s = 0x22 # quote_units s @ [0x22]"

fun intercalate :: "'a list \<Rightarrow> 'a list list \<Rightarrow> 'a list" where
  "intercalate sep [] = []"
| "intercalate sep [x] = x"
| "intercalate sep (x # y # ys) = x @ sep @ intercalate sep (y # ys)"

text \<open>No white space, the members of an object in the order the object holds them.\<close>

fun JSON_stringify :: "json \<Rightarrow> jsstring" where
  "JSON_stringify JNull = js ''null''"
| "JSON_stringify (JBool b) = (if b then js ''true'' else js ''false'')"
| "JSON_stringify (JNum l) = l"
| "JSON_stringify (JStr s) = quoteJSON s"
| "JSON_stringify (JArr xs) = js ''['' @ intercalate (js '','') (map JSON_stringify xs) @ js '']''"
| "JSON_stringify (JObj kvs) =
     js ''{''
       @ intercalate (js '','') (map (\<lambda>(k, v). quoteJSON k @ js '':'' @ JSON_stringify v) kvs)
       @ js ''}''"

subsection \<open>\<^verbatim>\<open>JSON.parse\<close>\<close>

text \<open>
  The grammar of ECMA-404. A parser returns the value it read and the input left, \<open>None\<close>
  where \<^verbatim>\<open>JSON.parse\<close> throws a SyntaxError.
\<close>

definition is_ws :: "unit16 \<Rightarrow> bool" where
  "is_ws u \<longleftrightarrow> u = 0x20 \<or> u = 0x09 \<or> u = 0x0A \<or> u = 0x0D"

definition skip_ws :: "jsstring \<Rightarrow> jsstring" where
  "skip_ws s = dropWhile is_ws s"

definition is_digit :: "unit16 \<Rightarrow> bool" where
  "is_digit u \<longleftrightarrow> 0x30 \<le> u \<and> u \<le> 0x39"

definition hexval :: "unit16 \<Rightarrow> nat option" where
  "hexval u =
     (if 0x30 \<le> u \<and> u \<le> 0x39 then Some (unat u - 48)
      else if 0x61 \<le> u \<and> u \<le> 0x66 then Some (unat u - 87)
      else if 0x41 \<le> u \<and> u \<le> 0x46 then Some (unat u - 55)
      else None)"

definition unescape :: "unit16 \<Rightarrow> unit16 option" where
  "unescape e =
     (if e = 0x22 \<or> e = 0x5C \<or> e = 0x2F then Some e
      else if e = 0x62 then Some 0x08
      else if e = 0x66 then Some 0x0C
      else if e = 0x6E then Some 0x0A
      else if e = 0x72 then Some 0x0D
      else if e = 0x74 then Some 0x09
      else None)"

text \<open>Puts \<open>u\<close> in front of the string a sub-parser returned.\<close>

definition cons_fst :: "'a \<Rightarrow> ('a list \<times> 'b) option \<Rightarrow> ('a list \<times> 'b) option" where
  "cons_fst u r = map_option (\<lambda>(s, t). (u # s, t)) r"

text \<open>The characters of a string after its opening quote, up to the closing quote.\<close>

fun parse_chars :: "jsstring \<Rightarrow> (jsstring \<times> jsstring) option" where
  "parse_chars [] = None"
| "parse_chars (c # r) =
     (if c = 0x22 then Some ([], r)
      else if c = 0x5C then
        (case r of
           [] \<Rightarrow> None
         | e # r1 \<Rightarrow>
             if e = 0x75 then
               (case r1 of
                  h1 # h2 # h3 # h4 # r2 \<Rightarrow>
                    (case (hexval h1, hexval h2, hexval h3, hexval h4) of
                       (Some a, Some b, Some c', Some d) \<Rightarrow>
                         cons_fst (of_nat (((a * 16 + b) * 16 + c') * 16 + d)) (parse_chars r2)
                     | _ \<Rightarrow> None)
                | _ \<Rightarrow> None)
             else
               (case unescape e of
                  None \<Rightarrow> None
                | Some u \<Rightarrow> cons_fst u (parse_chars r1)))
      else if c < 0x20 then None
      else cons_fst c (parse_chars r))"

text \<open>A number: an optional minus, an integer part, an optional fraction and exponent.\<close>

definition digits1 :: "jsstring \<Rightarrow> (jsstring \<times> jsstring) option" where
  "digits1 s = (if takeWhile is_digit s = [] then None
                else Some (takeWhile is_digit s, dropWhile is_digit s))"

definition parse_int_part :: "jsstring \<Rightarrow> (jsstring \<times> jsstring) option" where
  "parse_int_part s =
     (case s of
        [] \<Rightarrow> None
      | c # r \<Rightarrow>
          if c = 0x30 then Some ([c], r)
          else digits1 s)"

definition parse_frac :: "jsstring \<Rightarrow> (jsstring \<times> jsstring) option" where
  "parse_frac s =
     (case s of
        [] \<Rightarrow> Some ([], s)
      | c # r \<Rightarrow>
          if c = 0x2E then cons_fst c (digits1 r)
          else Some ([], s))"

definition parse_exp :: "jsstring \<Rightarrow> (jsstring \<times> jsstring) option" where
  "parse_exp s =
     (case s of
        [] \<Rightarrow> Some ([], s)
      | c # r \<Rightarrow>
          if c = 0x65 \<or> c = 0x45 then
            (case r of
               [] \<Rightarrow> None
             | g # r1 \<Rightarrow>
                 if g = 0x2B \<or> g = 0x2D then cons_fst c (cons_fst g (digits1 r1))
                 else cons_fst c (digits1 r))
          else Some ([], s))"

definition parse_number :: "jsstring \<Rightarrow> (jsstring \<times> jsstring) option" where
  "parse_number s =
     (let (sign, s0) = (case s of [] \<Rightarrow> ([], s) | c # r \<Rightarrow> if c = 0x2D then ([c], r) else ([], s))
      in case parse_int_part s0 of
           None \<Rightarrow> None
         | Some (ip, s1) \<Rightarrow>
             (case parse_frac s1 of
                None \<Rightarrow> None
              | Some (fp, s2) \<Rightarrow>
                  (case parse_exp s2 of
                     None \<Rightarrow> None
                   | Some (ep, s3) \<Rightarrow> Some (sign @ ip @ fp @ ep, s3))))"

text \<open>
  \<^verbatim>\<open>JSON.parse\<close> builds an object by defining its members one by one. A JavaScript object
  holds the keys that are array indices (canonical decimal numerals up to \<open>2^32 - 2\<close>) first,
  in ascending order, then the other keys in the order of their first definition; a key
  defined again keeps its place and takes the new value.
\<close>

definition key_value :: "jsstring \<Rightarrow> nat" where
  "key_value k = foldl (\<lambda>n u. 10 * n + (unat u - 48)) 0 k"

definition is_index_key :: "jsstring \<Rightarrow> bool" where
  "is_index_key k \<longleftrightarrow>
     k \<noteq> [] \<and> list_all is_digit k \<and> (k = [0x30] \<or> hd k \<noteq> 0x30) \<and>
     length k \<le> 10 \<and> key_value k \<le> 4294967294"

fun insert_index :: "jsstring \<Rightarrow> json \<Rightarrow> (jsstring \<times> json) list \<Rightarrow> (jsstring \<times> json) list" where
  "insert_index k v [] = [(k, v)]"
| "insert_index k v (p # ps) =
     (if is_index_key (fst p) \<and> key_value (fst p) < key_value k
      then p # insert_index k v ps
      else (k, v) # p # ps)"

fun replace_value :: "jsstring \<Rightarrow> json \<Rightarrow> (jsstring \<times> json) list \<Rightarrow> (jsstring \<times> json) list" where
  "replace_value k v [] = []"
| "replace_value k v (p # ps) =
     (if fst p = k then (k, v) # ps else p # replace_value k v ps)"

definition obj_put :: "(jsstring \<times> json) list \<Rightarrow> jsstring \<Rightarrow> json \<Rightarrow> (jsstring \<times> json) list" where
  "obj_put kvs k v =
     (if k \<in> fst ` set kvs then replace_value k v kvs
      else if is_index_key k then insert_index k v kvs
      else kvs @ [(k, v)])"

text \<open>
  The fuel bounds the number of nested and successive values; each value takes at least
  one character, so \<open>JSON_parse\<close> gives one more than the length of the text.
\<close>

definition starts_with :: "jsstring \<Rightarrow> jsstring \<Rightarrow> bool" where
  "starts_with p s \<longleftrightarrow> take (length p) s = p"

fun parse_value :: "nat \<Rightarrow> jsstring \<Rightarrow> (json \<times> jsstring) option"
  and parse_elements :: "nat \<Rightarrow> json list \<Rightarrow> jsstring \<Rightarrow> (json \<times> jsstring) option"
  and parse_members :: "nat \<Rightarrow> (jsstring \<times> json) list \<Rightarrow> jsstring \<Rightarrow> (json \<times> jsstring) option"
where
  "parse_value 0 s = None"
| "parse_value (Suc n) s =
     (case s of
        [] \<Rightarrow> None
      | c # r \<Rightarrow>
          if c = 0x22 then map_option (\<lambda>(t, r'). (JStr t, r')) (parse_chars r)
          else if c = 0x5B then
            (case skip_ws r of
               [] \<Rightarrow> None
             | d # r' \<Rightarrow> if d = 0x5D then Some (JArr [], r') else parse_elements n [] (d # r'))
          else if c = 0x7B then
            (case skip_ws r of
               [] \<Rightarrow> None
             | d # r' \<Rightarrow> if d = 0x7D then Some (JObj [], r') else parse_members n [] (d # r'))
          else if starts_with (js ''null'') s then Some (JNull, drop 4 s)
          else if starts_with (js ''true'') s then Some (JBool True, drop 4 s)
          else if starts_with (js ''false'') s then Some (JBool False, drop 5 s)
          else map_option (\<lambda>(l, r'). (JNum l, r')) (parse_number s))"
| "parse_elements 0 acc s = None"
| "parse_elements (Suc n) acc s =
     (case parse_value n s of
        None \<Rightarrow> None
      | Some (v, r) \<Rightarrow>
          (case skip_ws r of
             [] \<Rightarrow> None
           | d # r' \<Rightarrow>
               if d = 0x2C then parse_elements n (acc @ [v]) (skip_ws r')
               else if d = 0x5D then Some (JArr (acc @ [v]), r')
               else None))"
| "parse_members 0 acc s = None"
| "parse_members (Suc n) acc s =
     (case s of
        [] \<Rightarrow> None
      | q # s1 \<Rightarrow>
          if q \<noteq> 0x22 then None
          else
            (case parse_chars s1 of
               None \<Rightarrow> None
             | Some (k, s2) \<Rightarrow>
                 (case skip_ws s2 of
                    [] \<Rightarrow> None
                  | c # s3 \<Rightarrow>
                      if c \<noteq> 0x3A then None
                      else
                        (case parse_value n (skip_ws s3) of
                           None \<Rightarrow> None
                         | Some (v, r) \<Rightarrow>
                             (case skip_ws r of
                                [] \<Rightarrow> None
                              | d # r' \<Rightarrow>
                                  if d = 0x2C then parse_members n (obj_put acc k v) (skip_ws r')
                                  else if d = 0x7D then Some (JObj (obj_put acc k v), r')
                                  else None)))))"

definition JSON_parse :: "jsstring \<Rightarrow> json option" where
  "JSON_parse s =
     (case parse_value (Suc (length s)) (skip_ws s) of
        None \<Rightarrow> None
      | Some (v, r) \<Rightarrow> if skip_ws r = [] then Some v else None)"

subsection \<open>JavaScript values: property access, truthiness, strict equality\<close>

text \<open>
  \<^verbatim>\<open>v.k\<close> for one of the keys the source reads (\<^verbatim>\<open>files\<close>, \<^verbatim>\<open>parent\<close>, \<^verbatim>\<open>path\<close>, \<^verbatim>\<open>hash\<close>,
  \<^verbatim>\<open>timeStamp\<close>, \<^verbatim>\<open>username\<close>, \<^verbatim>\<open>message\<close>; no prototype has a property of these names):
  a TypeError on \<^verbatim>\<open>null\<close>, an object's own member, \<^verbatim>\<open>undefined\<close> otherwise.
\<close>

fun get_prop :: "json \<Rightarrow> jsstring \<Rightarrow> error + json option" where
  "get_prop JNull k = Inl TypeError"
| "get_prop (JObj kvs) k = Inr (map_of kvs k)"
| "get_prop v k = Inr None"

text \<open>A number literal denotes zero when its digits before the exponent are all \<open>0\<close>.\<close>

definition num_zero :: "jsstring \<Rightarrow> bool" where
  "num_zero l \<longleftrightarrow> list_all (\<lambda>u. if is_digit u then u = 0x30 else True)
                    (takeWhile (\<lambda>u. u \<noteq> 0x65 \<and> u \<noteq> 0x45) l)"

fun truthy :: "json \<Rightarrow> bool" where
  "truthy JNull = False"
| "truthy (JBool b) = b"
| "truthy (JNum l) = (\<not> num_zero l)"
| "truthy (JStr s) = (s \<noteq> [])"
| "truthy (JArr xs) = True"
| "truthy (JObj kvs) = True"

text \<open>\<^verbatim>\<open>===\<close> on values of two different \<^verbatim>\<open>JSON.parse\<close> results: two objects are never the same.\<close>

fun strict_eq :: "json option \<Rightarrow> json option \<Rightarrow> bool" where
  "strict_eq None None = True"
| "strict_eq (Some JNull) (Some JNull) = True"
| "strict_eq (Some (JBool a)) (Some (JBool b)) = (a = b)"
| "strict_eq (Some (JNum a)) (Some (JNum b)) = (a = b)"
| "strict_eq (Some (JStr a)) (Some (JStr b)) = (a = b)"
| "strict_eq a b = False"

subsection \<open>\<^verbatim>\<open>path.join\<close> (POSIX)\<close>

fun split_acc :: "jsstring \<Rightarrow> jsstring \<Rightarrow> jsstring list" where
  "split_acc acc [] = [rev acc]"
| "split_acc acc (c # cs) =
     (if c = 0x2F then rev acc # split_acc [] cs else split_acc (c # acc) cs)"

text \<open>The segments between the slashes of a path.\<close>

definition split_path :: "jsstring \<Rightarrow> jsstring list" where
  "split_path p = split_acc [] p"

text \<open>
  One segment of \<^verbatim>\<open>normalizeString\<close>: an empty segment and \<^verbatim>\<open>.\<close> are dropped, \<^verbatim>\<open>..\<close> removes the
  segment before it, or stays when there is none to remove and the path is relative.
\<close>

definition norm_step :: "bool \<Rightarrow> jsstring list \<Rightarrow> jsstring \<Rightarrow> jsstring list" where
  "norm_step allowAboveRoot res seg =
     (if seg = [] \<or> seg = js ''.'' then res
      else if seg = js ''..'' then
        (if res \<noteq> [] \<and> last res \<noteq> js ''..'' then butlast res
         else if allowAboveRoot then res @ [seg]
         else res)
      else res @ [seg])"

definition path_normalize :: "jsstring \<Rightarrow> jsstring" where
  "path_normalize p =
     (if p = [] then js ''.''
      else
        let isAbsolute = (hd p = 0x2F);
            trailingSeparator = (last p = 0x2F);
            r = intercalate (js ''/'') (foldl (norm_step (\<not> isAbsolute)) [] (split_path p))
        in if r = [] then (if isAbsolute then js ''/'' else if trailingSeparator then js ''./'' else js ''.'')
           else (if isAbsolute then js ''/'' else []) @ r @ (if trailingSeparator then js ''/'' else []))"

definition path_join :: "jsstring list \<Rightarrow> jsstring" where
  "path_join args =
     (let joined = intercalate (js ''/'') (filter (\<lambda>a. a \<noteq> []) args)
      in if joined = [] then js ''.'' else path_normalize joined)"

text \<open>The directory a path lies in: the path without its last segment.\<close>

definition dirname :: "jsstring \<Rightarrow> jsstring" where
  "dirname p =
     (let d = intercalate (js ''/'') (butlast (split_path p))
      in if d = [] then (if p \<noteq> [] \<and> hd p = 0x2F then js ''/'' else js ''.'') else d)"

section \<open>The file system\<close>

text \<open>
  The files, by path, and the directories that exist. Paths are compared as strings: two
  spellings of one file are two files of the model. A read fails on a path that holds no
  file; a write fails where the directory of the path does not exist, or the path is a
  directory. Reading decodes UTF-8, writing a string encodes it.
\<close>

record fs =
  files :: "jsstring \<rightharpoonup> bytes"
  dirs :: "jsstring set"

definition readFile :: "fs \<Rightarrow> jsstring \<Rightarrow> error + jsstring" where
  "readFile s p =
     (if p \<in> dirs s then Inl EISDIR
      else case files s p of None \<Rightarrow> Inl ENOENT | Some b \<Rightarrow> Inr (utf8_decode b))"

definition writeFile :: "fs \<Rightarrow> jsstring \<Rightarrow> jsstring \<Rightarrow> error + fs" where
  "writeFile s p content =
     (if p \<in> dirs s then Inl EISDIR
      else if dirname p \<notin> dirs s then Inl ENOENT
      else Inr (s\<lparr>files := (files s)(p \<mapsto> utf8_encode content)\<rparr>))"

section \<open>The class \<^verbatim>\<open>AriGit\<close>\<close>

text \<open>
  What an invocation prints, without the colours: one constructor for each
  \<^verbatim>\<open>console.log\<close> and \<^verbatim>\<open>console.error\<close> of the source. A log entry and a file header carry
  the values that the template literal renders.
\<close>

datatype out =
    AddedFile jsstring
  | ErrorAdding error
  | ErrorStaging error
  | ErrorReadingHead error
  | CommitCreated jsstring
  | ErrorCommitting error
  | LogSeparator
  | LogEntry jsstring "json option" "json option" "json option"
  | ErrorLog error
  | FailedReadCommit error
  | CommitNotFound
  | ChangesHeader
  | FileHeader "json option"
  | FileContent jsstring
  | DiffHeader
  | DiffAdded jsstring
  | DiffRemoved jsstring
  | DiffUnchanged jsstring
  | NewFile
  | FirstCommit
  | ErrorShowing error

text \<open>What \<^verbatim>\<open>commit\<close> takes from its environment: the clock and \<^verbatim>\<open>process.env.USERNAME\<close>.\<close>

record env =
  now :: jsstring
  USERNAME :: "jsstring option"

text \<open>The constructor, called as \<^verbatim>\<open>new AriGit()\<close>: \<^verbatim>\<open>repoPath = '.'\<close>.\<close>

definition repoPath :: jsstring where
  "repoPath = path_join [js ''.'', js ''.arigit'']"

definition objectsPath :: jsstring where
  "objectsPath = path_join [repoPath, js ''objects'']"

definition headPath :: jsstring where
  "headPath = path_join [repoPath, js ''HEAD'']"

definition indexPath :: jsstring where
  "indexPath = path_join [repoPath, js ''index'']"

definition hashObject :: "jsstring \<Rightarrow> jsstring" where
  "hashObject content = sha1_hex (utf8_encode content)"

text \<open>\<^verbatim>\<open>index.push(entry)\<close>: only an array has the method.\<close>

fun array_push :: "json \<Rightarrow> json \<Rightarrow> error + json" where
  "array_push (JArr xs) v = Inr (JArr (xs @ [v]))"
| "array_push w v = Inl TypeError"

definition staging_entry :: "jsstring \<Rightarrow> jsstring \<Rightarrow> json" where
  "staging_entry filePath fileHash = JObj [(js ''path'', JStr filePath), (js ''hash'', JStr fileHash)]"

definition updateStagingArea :: "fs \<Rightarrow> jsstring \<Rightarrow> jsstring \<Rightarrow> out list \<times> fs" where
  "updateStagingArea s filePath fileHash =
     (case readFile s indexPath of
        Inl e \<Rightarrow> ([ErrorStaging e], s)
      | Inr text \<Rightarrow>
          (case JSON_parse text of
             None \<Rightarrow> ([ErrorStaging SyntaxError], s)
           | Some index \<Rightarrow>
               (case array_push index (staging_entry filePath fileHash) of
                  Inl e \<Rightarrow> ([ErrorStaging e], s)
                | Inr index' \<Rightarrow>
                    (case writeFile s indexPath (JSON_stringify index') of
                       Inl e \<Rightarrow> ([ErrorStaging e], s)
                     | Inr s' \<Rightarrow> ([], s')))))"

definition add :: "fs \<Rightarrow> jsstring \<Rightarrow> out list \<times> fs" where
  "add s fileToBeAdded =
     (case readFile s fileToBeAdded of
        Inl e \<Rightarrow> ([ErrorAdding e], s)
      | Inr fileData \<Rightarrow>
          (let fileHash = hashObject fileData;
               newFileHashedObjectPath = path_join [objectsPath, fileHash]
           in case writeFile s newFileHashedObjectPath fileData of
                Inl e \<Rightarrow> ([ErrorAdding e], s)
              | Inr s1 \<Rightarrow>
                  (case updateStagingArea s1 fileToBeAdded fileHash of
                     (msgs, s2) \<Rightarrow> (msgs @ [AddedFile fileToBeAdded], s2))))"

text \<open>The text of HEAD, or \<^verbatim>\<open>null\<close> with a message when the read fails.\<close>

definition getCurrentHead :: "fs \<Rightarrow> out list \<times> json" where
  "getCurrentHead s =
     (case readFile s headPath of
        Inl e \<Rightarrow> ([ErrorReadingHead e], JNull)
      | Inr text \<Rightarrow> ([], JStr text))"

text \<open>\<^verbatim>\<open>v || null\<close> and \<^verbatim>\<open>process.env.USERNAME || 'anonymous'\<close>.\<close>

definition or_null :: "json \<Rightarrow> json" where
  "or_null v = (if truthy v then v else JNull)"

definition username_of :: "env \<Rightarrow> jsstring" where
  "username_of e = (case USERNAME e of None \<Rightarrow> js ''anonymous'' | Some u \<Rightarrow> if u = [] then js ''anonymous'' else u)"

definition commitData_of :: "env \<Rightarrow> jsstring \<Rightarrow> json \<Rightarrow> json \<Rightarrow> json" where
  "commitData_of e message index parentCommit =
     JObj [(js ''timeStamp'', JStr (now e)),
           (js ''message'', JStr message),
           (js ''files'', index),
           (js ''parent'', or_null parentCommit),
           (js ''username'', JStr (username_of e))]"

text \<open>
  The three writes of \<^verbatim>\<open>commit\<close> follow each other; one that fails leaves the earlier ones
  done and skips the later ones.
\<close>

definition commit :: "env \<Rightarrow> fs \<Rightarrow> jsstring \<Rightarrow> out list \<times> fs" where
  "commit e s message =
     (case readFile s indexPath of
        Inl err \<Rightarrow> ([ErrorCommitting err], s)
      | Inr text \<Rightarrow>
          (case JSON_parse text of
             None \<Rightarrow> ([ErrorCommitting SyntaxError], s)
           | Some index \<Rightarrow>
               (case getCurrentHead s of
                  (msgs, parentCommit) \<Rightarrow>
                    (let commitData = commitData_of e message index parentCommit;
                         commitHash = hashObject (JSON_stringify commitData);
                         commitPath = path_join [objectsPath, commitHash]
                     in case writeFile s commitPath (JSON_stringify commitData) of
                          Inl err \<Rightarrow> (msgs @ [ErrorCommitting err], s)
                        | Inr s1 \<Rightarrow>
                            (case writeFile s1 headPath commitHash of
                               Inl err \<Rightarrow> (msgs @ [ErrorCommitting err], s1)
                             | Inr s2 \<Rightarrow>
                                 (case writeFile s2 indexPath (JSON_stringify (JArr [])) of
                                    Inl err \<Rightarrow> (msgs @ [ErrorCommitting err], s2)
                                  | Inr s3 \<Rightarrow> (msgs @ [CommitCreated commitHash], s3)))))))"

subsection \<open>\<^verbatim>\<open>log\<close>\<close>


text \<open>\<^verbatim>\<open>while (currentCommitHash)\<close> stops at \<^verbatim>\<open>null\<close>, \<^verbatim>\<open>undefined\<close> and the empty string.\<close>

definition falsy :: "json option \<Rightarrow> bool" where
  "falsy v = (case v of None \<Rightarrow> True | Some w \<Rightarrow> \<not> truthy w)"



subsection \<open>\<^verbatim>\<open>diffLines\<close>\<close>

text \<open>
  Modelled from the spec: \<^verbatim>\<open>diffLines\<close> is imported from the package \<^verbatim>\<open>diff\<close>, which is not
  among the sources. Section 4.4 of the specification gives its algorithm: compute the
  longest common subsequence of the lines of the two texts, partition the texts into maximal
  runs of matched and unmatched lines, emit a matched run as an unchanged segment, an
  unmatched run of the old text as a removed segment and one of the new text as an added
  segment, the removed run before the added run of the same gap. A line keeps its line feed.
\<close>

datatype kind = Unchanged | Added | Removed

type_synonym segment = "kind \<times> jsstring"

fun lines_acc :: "jsstring \<Rightarrow> jsstring \<Rightarrow> jsstring list" where
  "lines_acc acc [] = (if acc = [] then [] else [rev acc])"
| "lines_acc acc (c # cs) =
     (if c = 0x0A then rev (c # acc) # lines_acc [] cs else lines_acc (c # acc) cs)"

definition split_lines :: "jsstring \<Rightarrow> jsstring list" where
  "split_lines t = lines_acc [] t"

fun lcs :: "'a list \<Rightarrow> 'a list \<Rightarrow> 'a list" where
  "lcs [] ys = []"
| "lcs (x # xs) [] = []"
| "lcs (x # xs) (y # ys) =
     (if x = y then x # lcs xs ys
      else if length (lcs (x # xs) ys) \<le> length (lcs xs (y # ys)) then lcs xs (y # ys)
      else lcs (x # xs) ys)"

text \<open>
  The edit script along a common subsequence: before each common line, the old lines up to
  it are removed and the new lines up to it are added.
\<close>

fun align :: "'a list \<Rightarrow> 'a list \<Rightarrow> 'a list \<Rightarrow> (kind \<times> 'a) list" where
  "align [] old new = map (Pair Removed) old @ map (Pair Added) new"
| "align (c # cs) old new =
     map (Pair Removed) (takeWhile (\<lambda>l. l \<noteq> c) old)
       @ map (Pair Added) (takeWhile (\<lambda>l. l \<noteq> c) new)
       @ [(Unchanged, c)]
       @ align cs (tl (dropWhile (\<lambda>l. l \<noteq> c) old)) (tl (dropWhile (\<lambda>l. l \<noteq> c) new))"

text \<open>Neighbouring lines of one kind form one segment.\<close>

fun group_runs :: "(kind \<times> jsstring) list \<Rightarrow> segment list" where
  "group_runs [] = []"
| "group_runs ((k, l) # rest) =
     (case group_runs rest of
        [] \<Rightarrow> [(k, l)]
      | (k', t) # segs \<Rightarrow> if k = k' then (k, l @ t) # segs else (k, l) # (k', t) # segs)"

definition diffLines :: "jsstring \<Rightarrow> jsstring \<Rightarrow> segment list" where
  "diffLines oldText newText =
     group_runs (align (lcs (split_lines oldText) (split_lines newText))
                   (split_lines oldText) (split_lines newText))"

subsection \<open>\<^verbatim>\<open>showCommitDiff\<close>\<close>

text \<open>
  The text of a commit object, or \<^verbatim>\<open>null\<close> (\<open>None\<close>) with a message. The \<^verbatim>\<open>path.join\<close> stands
  inside the \<^verbatim>\<open>try\<close>, so its TypeError on a hash that is not a string is caught here too.
\<close>

definition getCommitData :: "fs \<Rightarrow> json option \<Rightarrow> out list \<times> jsstring option" where
  "getCommitData s commitHash =
     (case commitHash of
        Some (JStr name) \<Rightarrow>
          (case readFile s (path_join [objectsPath, name]) of
             Inl e \<Rightarrow> ([FailedReadCommit e], None)
           | Inr text \<Rightarrow> ([], Some text))
      | _ \<Rightarrow> ([FailedReadCommit TypeError], None))"

definition getFileContent :: "fs \<Rightarrow> json option \<Rightarrow> error + jsstring" where
  "getFileContent s fileHash =
     (case fileHash of
        Some (JStr name) \<Rightarrow> readFile s (path_join [objectsPath, name])
      | _ \<Rightarrow> Inl TypeError)"

text \<open>\<^verbatim>\<open>JSON.parse\<close> of a string or of \<^verbatim>\<open>null\<close>, which it reads as the text \<^verbatim>\<open>null\<close>.\<close>

definition JSON_parse_text :: "jsstring option \<Rightarrow> json option" where
  "JSON_parse_text t = JSON_parse (case t of None \<Rightarrow> js ''null'' | Some text \<Rightarrow> text)"

text \<open>
  \<^verbatim>\<open>files.find(file => file.path === filePath)\<close> on the elements of an array: the first
  element whose path is the one looked for; reading the path of \<^verbatim>\<open>null\<close> throws.
\<close>

fun find_file :: "json list \<Rightarrow> json option \<Rightarrow> error + json option" where
  "find_file [] filePath = Inr None"
| "find_file (file # rest) filePath =
     (case get_prop file (js ''path'') of
        Inl e \<Rightarrow> Inl e
      | Inr p \<Rightarrow> if strict_eq p filePath then Inr (Some file) else find_file rest filePath)"

definition getParentFileContent :: "fs \<Rightarrow> json \<Rightarrow> json option \<Rightarrow> error + jsstring option" where
  "getParentFileContent s parentCommitData filePath =
     (case get_prop parentCommitData (js ''files'') of
        Inl e \<Rightarrow> Inl e
      | Inr fl \<Rightarrow>
          (case fl of
             Some (JArr xs) \<Rightarrow>
               (case find_file xs filePath of
                  Inl e \<Rightarrow> Inl e
                | Inr None \<Rightarrow> Inr None
                | Inr (Some parentFile) \<Rightarrow>
                    if truthy parentFile then
                      (case get_prop parentFile (js ''hash'') of
                         Inl e \<Rightarrow> Inl e
                       | Inr h \<Rightarrow>
                           (case getFileContent s h of
                              Inl e \<Rightarrow> Inl e
                            | Inr text \<Rightarrow> Inr (Some text)))
                    else Inr None)
           | _ \<Rightarrow> Inl TypeError))"

definition render :: "segment \<Rightarrow> out" where
  "render part =
     (case part of
        (Added, t) \<Rightarrow> DiffAdded t
      | (Removed, t) \<Rightarrow> DiffRemoved t
      | (Unchanged, t) \<Rightarrow> DiffUnchanged t)"

text \<open>
  The body of the loop over \<^verbatim>\<open>commitData.files\<close> for one element: what it prints, and the
  exception that ended it, if any.
\<close>

definition show_file :: "fs \<Rightarrow> json \<Rightarrow> json \<Rightarrow> out list \<times> error option" where
  "show_file s commitData file =
     (case get_prop file (js ''path'') of
        Inl e \<Rightarrow> ([], Some e)
      | Inr filePath \<Rightarrow>
          (case get_prop file (js ''hash'') of
             Inl e \<Rightarrow> ([FileHeader filePath], Some e)
           | Inr fileHash \<Rightarrow>
               (case getFileContent s fileHash of
                  Inl e \<Rightarrow> ([FileHeader filePath], Some e)
                | Inr fileContent \<Rightarrow>
                    (case get_prop commitData (js ''parent'') of
                       Inl e \<Rightarrow> ([FileHeader filePath, FileContent fileContent], Some e)
                     | Inr parent \<Rightarrow>
                         if falsy parent then
                           ([FileHeader filePath, FileContent fileContent, FirstCommit], None)
                         else
                           (case getCommitData s parent of
                              (msgs, text) \<Rightarrow>
                                (case JSON_parse_text text of
                                   None \<Rightarrow>
                                     ([FileHeader filePath, FileContent fileContent] @ msgs,
                                      Some SyntaxError)
                                 | Some parentCommitData \<Rightarrow>
                                     (case getParentFileContent s parentCommitData filePath of
                                        Inl e \<Rightarrow>
                                          ([FileHeader filePath, FileContent fileContent] @ msgs,
                                           Some e)
                                      | Inr None \<Rightarrow>
                                          ([FileHeader filePath, FileContent fileContent] @ msgs
                                             @ [NewFile], None)
                                      | Inr (Some parentFileContent) \<Rightarrow>
                                          ([FileHeader filePath, FileContent fileContent] @ msgs
                                             @ [DiffHeader]
                                             @ map render (diffLines parentFileContent fileContent),
                                           None))))))))"

fun show_files :: "fs \<Rightarrow> json \<Rightarrow> json list \<Rightarrow> out list" where
  "show_files s commitData [] = []"
| "show_files s commitData (file # rest) =
     (case show_file s commitData file of
        (msgs, None) \<Rightarrow> msgs @ show_files s commitData rest
      | (msgs, Some e) \<Rightarrow> msgs @ [ErrorShowing e])"

text \<open>
  What \<^verbatim>\<open>for (const file of v)\<close> runs over: the elements of an array, the characters of a
  string (each a string of its own); any other value is not iterable.
\<close>

definition iterate :: "json option \<Rightarrow> error + json list" where
  "iterate v =
     (case v of
        Some (JArr xs) \<Rightarrow> Inr xs
      | Some (JStr t) \<Rightarrow> Inr (map (\<lambda>u. JStr [u]) t)
      | _ \<Rightarrow> Inl TypeError)"

definition showCommitDiff :: "fs \<Rightarrow> jsstring \<Rightarrow> out list" where
  "showCommitDiff s commitHash =
     (case getCommitData s (Some (JStr commitHash)) of
        (msgs, text) \<Rightarrow>
          (case JSON_parse_text text of
             None \<Rightarrow> msgs @ [ErrorShowing SyntaxError]
           | Some commitData \<Rightarrow>
               if \<not> truthy commitData then msgs @ [CommitNotFound]
               else
                 (case get_prop commitData (js ''files'') of
                    Inl e \<Rightarrow> msgs @ [ChangesHeader, ErrorShowing e]
                  | Inr fl \<Rightarrow>
                      (case iterate fl of
                         Inl e \<Rightarrow> msgs @ [ChangesHeader, ErrorShowing e]
                       | Inr xs \<Rightarrow> msgs @ [ChangesHeader] @ show_files s commitData xs))))"

section \<open>Repository states\<close>

text \<open>A name that \<^verbatim>\<open>path.join\<close> appends to a directory as it is: one segment, not \<^verbatim>\<open>.\<close> or \<^verbatim>\<open>..\<close>.\<close>

definition plain_name :: "jsstring \<Rightarrow> bool" where
  "plain_name h \<longleftrightarrow> h \<noteq> [] \<and> 0x2F \<notin> set h \<and> h \<noteq> js ''.'' \<and> h \<noteq> js ''..''"

text \<open>
  The layout that \<^verbatim>\<open>init\<close> creates: the directory \<^verbatim>\<open>.arigit\<close> and in it the flat directory
  \<^verbatim>\<open>objects\<close>, and no other directory below \<^verbatim>\<open>.arigit\<close>. In such a state every write of
  \<^verbatim>\<open>add\<close> and \<^verbatim>\<open>commit\<close> succeeds.
\<close>

definition initialised :: "fs \<Rightarrow> bool" where
  "initialised s \<longleftrightarrow>
     repoPath \<in> dirs s \<and> objectsPath \<in> dirs s \<and>
     (\<forall>d \<in> dirs s. starts_with (js ''.arigit/'') d \<longrightarrow> d = objectsPath)"

text \<open>The commit record stored under a digest, if the object exists and is JSON text.\<close>

definition commit_at :: "fs \<Rightarrow> jsstring \<Rightarrow> json option" where
  "commit_at s h =
     (case readFile s (path_join [objectsPath, h]) of
        Inl e \<Rightarrow> None
      | Inr text \<Rightarrow> JSON_parse text)"

definition field :: "json \<Rightarrow> jsstring \<Rightarrow> json option" where
  "field c k = (case get_prop c k of Inl e \<Rightarrow> None | Inr v \<Rightarrow> v)"




text \<open>The Staging Index as the next operation loads it.\<close>

definition staging_index :: "fs \<Rightarrow> json option" where
  "staging_index s =
     (case readFile s indexPath of
        Inl e \<Rightarrow> None
      | Inr text \<Rightarrow> JSON_parse text)"

subsection \<open>Example states\<close>

text \<open>The repository as \<^verbatim>\<open>init\<close> leaves it: an empty HEAD, the index \<^verbatim>\<open>[]\<close>, no object.\<close>

definition fresh_repo :: fs where
  "fresh_repo =
     \<lparr>files = [headPath \<mapsto> [], indexPath \<mapsto> utf8_encode (js ''[]'')],
      dirs = {repoPath, objectsPath}\<rparr>"

definition env0 :: env where
  "env0 = \<lparr>now = js ''2024-05-01T10:00:00.000Z'', USERNAME = None\<rparr>"

text \<open>A fresh repository beside a file \<^verbatim>\<open>a.txt\<close> that holds \<^verbatim>\<open>hello\<close>.\<close>

definition work_repo :: fs where
  "work_repo = fresh_repo\<lparr>files := (files fresh_repo)(js ''a.txt'' \<mapsto> utf8_encode (js ''hello''))\<rparr>"

text \<open>A fresh repository beside a file \<^verbatim>\<open>f\<close> that holds the single byte 0xFF.\<close>

definition binary_repo :: fs where
  "binary_repo = fresh_repo\<lparr>files := (files fresh_repo)(js ''f'' \<mapsto> [0xFF])\<rparr>"




text \<open>A repository whose index holds the JSON text of an empty object.\<close>

definition object_index_repo :: fs where
  "object_index_repo = fresh_repo\<lparr>files := (files fresh_repo)(indexPath \<mapsto> utf8_encode (js ''{}''))\<rparr>"



text \<open>A repository whose index is not JSON text.\<close>

definition broken_index_repo :: fs where
  "broken_index_repo = fresh_repo\<lparr>files := (files fresh_repo)(indexPath \<mapsto> utf8_encode (js ''[oops''))\<rparr>"

text \<open>
  A repository with two commits. The first commit holds two entries for \<^verbatim>\<open>a.txt\<close>, staged
  with the contents \<^verbatim>\<open>one\<close> and then \<^verbatim>\<open>two\<close> (each a line); the second commit holds one entry
  for \<^verbatim>\<open>a.txt\<close>, with the content \<^verbatim>\<open>three\<close>.
\<close>

definition blob_one :: jsstring where "blob_one = js ''one'' @ [0x0A]"
definition blob_two :: jsstring where "blob_two = js ''two'' @ [0x0A]"
definition blob_three :: jsstring where "blob_three = js ''three'' @ [0x0A]"

definition hash_one :: jsstring where "hash_one = js ''c7059bb19433cc3cabaa6236c83d56668a843dd2''"
definition hash_two :: jsstring where "hash_two = js ''7bbef45b3bc70855010e02460717643125c3beca''"
definition hash_three :: jsstring where "hash_three = js ''1e7720a3460b8a84ac4ba27880d64526a3872f1c''"
definition hash_parent :: jsstring where "hash_parent = js ''3559f6641efb5113c6694493d56e2ea3d5e2c6a8''"
definition hash_child :: jsstring where "hash_child = js ''7bd4ebc2fc6dcced50f67c432a8fc90eb947fb57''"

definition entry_one :: json where "entry_one = staging_entry (js ''a.txt'') hash_one"
definition entry_two :: json where "entry_two = staging_entry (js ''a.txt'') hash_two"
definition entry_three :: json where "entry_three = staging_entry (js ''a.txt'') hash_three"

definition parent_record :: json where
  "parent_record = commitData_of env0 (js ''first'') (JArr [entry_one, entry_two]) JNull"

definition env1 :: env where
  "env1 = \<lparr>now = js ''2024-05-02T10:00:00.000Z'', USERNAME = None\<rparr>"

definition child_record :: json where
  "child_record = commitData_of env1 (js ''second'') (JArr [entry_three]) (JStr hash_parent)"

definition two_commit_repo :: fs where
  "two_commit_repo =
     fresh_repo\<lparr>files := (files fresh_repo)
       (path_join [objectsPath, hash_one] \<mapsto> utf8_encode blob_one,
        path_join [objectsPath, hash_two] \<mapsto> utf8_encode blob_two,
        path_join [objectsPath, hash_parent] \<mapsto> utf8_encode (JSON_stringify parent_record),
        path_join [objectsPath, hash_three] \<mapsto> utf8_encode blob_three,
        path_join [objectsPath, hash_child] \<mapsto> utf8_encode (JSON_stringify child_record),
        headPath \<mapsto> utf8_encode hash_child)\<rparr>"

section \<open>Values that are read back as they were written\<close>

text \<open>A string without a lone surrogate: UTF-8 encodes it without loss.\<close>

fun well_formed :: "jsstring \<Rightarrow> bool" where
  "well_formed [] = True"
| "well_formed (u # us) =
     (if is_high u then (case us of [] \<Rightarrow> False | v # vs \<Rightarrow> is_low v \<and> well_formed vs)
      else \<not> is_low u \<and> well_formed us)"

text \<open>
  The values that AriGit writes are built from strings, arrays, objects, \<^verbatim>\<open>null\<close> and
  booleans, and the keys of an object differ from each other and are not array indices.
\<close>

fun printable :: "json \<Rightarrow> bool" where
  "printable (JNum l) = False"
| "printable (JArr xs) = list_all printable xs"
| "printable (JObj kvs) =
     (distinct (map fst kvs) \<and> list_all (\<lambda>kv. \<not> is_index_key (fst kv) \<and> printable (snd kv)) kvs)"
| "printable v = True"

text \<open>A bound on the fuel that parsing the text of a value takes.\<close>

fun fuel_of :: "json \<Rightarrow> nat" where
  "fuel_of (JArr xs) = Suc (sum_list (map (\<lambda>v. Suc (fuel_of v)) xs))"
| "fuel_of (JObj kvs) = Suc (sum_list (map (\<lambda>kv. Suc (fuel_of (snd kv))) kvs))"
| "fuel_of v = 1"

text \<open>The first character of the text of a value.\<close>

definition starts_value :: "jsstring \<Rightarrow> bool" where
  "starts_value s \<longleftrightarrow>
     (case s of [] \<Rightarrow> False
      | c # r \<Rightarrow> c = 0x22 \<or> c = 0x5B \<or> c = 0x7B \<or> c = 0x6E \<or> c = 0x74 \<or> c = 0x66)"

text \<open>The text of one member of an object.\<close>

definition member_text :: "jsstring \<times> json \<Rightarrow> jsstring" where
  "member_text kv = quoteJSON (fst kv) @ js '':'' @ JSON_stringify (snd kv)"

section \<open>Paths and digests\<close>

lemma repoPath_eq: "repoPath = js ''.arigit''"
  by (simp add: repoPath_def path_join_def path_normalize_def split_path_def norm_step_def js_def)

lemma objectsPath_eq: "objectsPath = js ''.arigit/objects''"
  by (simp add: objectsPath_def repoPath_eq path_join_def path_normalize_def split_path_def
      norm_step_def js_def)

lemma headPath_eq: "headPath = js ''.arigit/HEAD''"
  by (simp add: headPath_def repoPath_eq path_join_def path_normalize_def split_path_def
      norm_step_def js_def)

lemma indexPath_eq: "indexPath = js ''.arigit/index''"
  by (simp add: indexPath_def repoPath_eq path_join_def path_normalize_def split_path_def
      norm_step_def js_def)

lemma split_acc_no_slash: "0x2F \<notin> set h \<Longrightarrow> split_acc acc h = [rev acc @ h]"
  by (induction h arbitrary: acc) auto

lemma object_path:
  assumes "plain_name h"
  shows "path_join [objectsPath, h] = js ''.arigit/objects/'' @ h"
proof -
  from assms have "last h \<in> set h" and "0x2F \<notin> set h"
    by (simp_all add: plain_name_def)
  then have "last h \<noteq> 0x2F" by metis
  with assms show ?thesis
    by (simp add: plain_name_def objectsPath_eq path_join_def path_normalize_def split_path_def
        norm_step_def js_def split_acc_no_slash Let_def)
qed

lemma dirname_object:
  "0x2F \<notin> set h \<Longrightarrow> dirname (js ''.arigit/objects/'' @ h) = js ''.arigit/objects''"
  by (simp add: dirname_def split_path_def js_def split_acc_no_slash)

lemma dirname_head: "dirname (js ''.arigit/HEAD'') = js ''.arigit''"
  by (simp add: dirname_def split_path_def js_def)

lemma dirname_index: "dirname (js ''.arigit/index'') = js ''.arigit''"
  by (simp add: dirname_def split_path_def js_def)

lemma hexdigit_upto: "list_all (\<lambda>n. is_hex (hexdigit n)) [0..<16]"
  by (simp add: upt_conv_Cons is_hex_def hexdigit_def)

lemma hexdigit_is_hex: "n < 16 \<Longrightarrow> is_hex (hexdigit n)"
  using hexdigit_upto by (simp add: list_all_iff)

lemma nibble_bound: "unat ((w :: 32 word) AND 0xF) < 16"
proof -
  have "unat (w AND 15) \<le> unat (15 :: 32 word)"
    by (rule word_and_le1 [THEN word_le_nat_alt [THEN iffD1]])
  then show ?thesis by simp
qed

lemma hex32_props: "length (hex32 w) = 8 \<and> list_all is_hex (hex32 w)"
  by (simp add: hex32_def hexdigit_is_hex nibble_bound)

lemma sha1_hex_props: "length (sha1_hex m) = 40 \<and> list_all is_hex (sha1_hex m)"
  by (simp add: sha1_hex_def hex32_props split: prod.splits)

lemma is_hex_not_special: "is_hex u \<Longrightarrow> u \<noteq> 0x2F \<and> u \<noteq> 0x2E"
  by (auto simp: is_hex_def)

lemma hex_plain: "length h = 40 \<Longrightarrow> list_all is_hex h \<Longrightarrow> plain_name h"
  unfolding plain_name_def js_def
  by (auto simp: list_all_iff dest: is_hex_not_special)

lemma hashObject_plain: "plain_name (hashObject c)"
  by (simp add: hashObject_def hex_plain sha1_hex_props)

lemma hashObject_length: "length (hashObject c) = 40"
  by (simp add: hashObject_def sha1_hex_props)

section \<open>Reads and writes in an initialised repository\<close>

lemma initialised_files [simp]: "initialised (s\<lparr>files := f\<rparr>) = initialised s"
  by (simp add: initialised_def)

lemma object_not_dir:
  assumes "initialised s"
  shows "js ''.arigit/objects/'' @ h \<notin> dirs s"
proof
  assume "js ''.arigit/objects/'' @ h \<in> dirs s"
  moreover have "starts_with (js ''.arigit/'') (js ''.arigit/objects/'' @ h)"
    by (simp add: starts_with_def js_def)
  ultimately have "js ''.arigit/objects/'' @ h = objectsPath"
    using assms by (simp add: initialised_def)
  then show False
    by (simp add: objectsPath_eq js_def)
qed

lemma head_not_dir: "initialised s \<Longrightarrow> js ''.arigit/HEAD'' \<notin> dirs s"
  by (auto simp: initialised_def starts_with_def objectsPath_eq js_def)

lemma index_not_dir: "initialised s \<Longrightarrow> js ''.arigit/index'' \<notin> dirs s"
  by (auto simp: initialised_def starts_with_def objectsPath_eq js_def)

lemma write_object:
  assumes "initialised s" and "plain_name h"
  shows "writeFile s (path_join [objectsPath, h]) t =
           Inr (s\<lparr>files := (files s)(js ''.arigit/objects/'' @ h \<mapsto> utf8_encode t)\<rparr>)"
proof -
  from assms(2) have "0x2F \<notin> set h" by (simp add: plain_name_def)
  moreover from assms(1) have "js ''.arigit/objects'' \<in> dirs s"
    by (simp add: initialised_def objectsPath_eq)
  ultimately show ?thesis
    using assms by (simp add: writeFile_def object_path object_not_dir dirname_object)
qed

lemma write_head:
  assumes "initialised s"
  shows "writeFile s headPath t = Inr (s\<lparr>files := (files s)(js ''.arigit/HEAD'' \<mapsto> utf8_encode t)\<rparr>)"
  using assms
  by (simp add: writeFile_def headPath_eq head_not_dir dirname_head)
     (simp add: initialised_def repoPath_eq)

lemma write_index:
  assumes "initialised s"
  shows "writeFile s indexPath t = Inr (s\<lparr>files := (files s)(js ''.arigit/index'' \<mapsto> utf8_encode t)\<rparr>)"
  using assms
  by (simp add: writeFile_def indexPath_eq index_not_dir dirname_index)
     (simp add: initialised_def repoPath_eq)

lemma object_neq_head: "js ''.arigit/objects/'' @ h \<noteq> js ''.arigit/HEAD''"
  by (simp add: js_def)

lemma object_neq_index: "js ''.arigit/objects/'' @ h \<noteq> js ''.arigit/index''"
  by (simp add: js_def)

lemma head_neq_index: "js ''.arigit/HEAD'' \<noteq> js ''.arigit/index''"
  by (simp add: js_def)

section \<open>UTF-8 on ASCII text\<close>

lemma ascii_unit:
  assumes "(u :: unit16) < 0x80"
  shows "\<not> is_high u" and "\<not> is_low u" and "enc_cp (unat u) = [ucast u]"
    and "(ucast u :: byte) < 0x80" and "(ucast (ucast u :: byte) :: unit16) = u"
proof -
  from assms have u: "unat u < 128"
    by (simp add: word_less_nat_alt)
  then show "\<not> is_high u" and "\<not> is_low u"
    by (simp_all add: is_high_def is_low_def word_le_nat_alt)
  from u show "enc_cp (unat u) = [ucast u]"
    by (simp add: enc_cp_def)
  from u have b: "unat (ucast u :: byte) = unat u"
    by (simp add: unsigned_ucast_eq take_bit_nat_eq_self)
  with u show "(ucast u :: byte) < 0x80"
    by (simp add: word_less_nat_alt)
  from b show "(ucast (ucast u :: byte) :: unit16) = u"
    by (simp add: word_unat_eq_iff unsigned_ucast_eq unsigned_take_bit_eq)
qed

lemma utf8_ascii: "list_all (\<lambda>u. u < 0x80) t \<Longrightarrow> utf8_decode (utf8_encode t) = t"
  by (induction t) (simp_all add: ascii_unit)

lemma is_hex_ascii: "is_hex u \<Longrightarrow> u < 0x80"
  by (auto simp: is_hex_def word_less_nat_alt word_le_nat_alt)

lemma utf8_hashObject: "utf8_decode (utf8_encode (hashObject c)) = hashObject c"
proof -
  have "list_all is_hex (hashObject c)"
    by (simp add: hashObject_def sha1_hex_props)
  then have "list_all (\<lambda>u. u < 0x80) (hashObject c)"
    by (simp add: list_all_iff is_hex_ascii)
  then show ?thesis by (rule utf8_ascii)
qed

lemma empty_index_text: "JSON_parse (utf8_decode (utf8_encode (js ''[]''))) = Some (JArr [])"
  by (simp add: js_def is_high_def is_low_def enc_cp_def JSON_parse_def skip_ws_def is_ws_def)

section \<open>The example states\<close>

lemma initialised_fresh: "initialised fresh_repo"
  by (simp add: initialised_def fresh_repo_def repoPath_eq objectsPath_eq starts_with_def js_def)

lemma dirs_fresh: "dirs fresh_repo = {js ''.arigit'', js ''.arigit/objects''}"
  by (simp add: fresh_repo_def repoPath_eq objectsPath_eq)

lemma files_fresh:
  "files fresh_repo = [js ''.arigit/HEAD'' \<mapsto> [], js ''.arigit/index'' \<mapsto> utf8_encode (js ''[]'')]"
  by (simp add: fresh_repo_def headPath_eq indexPath_eq)

section \<open>\<^verbatim>\<open>add\<close> and \<^verbatim>\<open>updateStagingArea\<close>\<close>

lemma stage_frame:
  "dirs (snd (updateStagingArea s p h)) = dirs s \<and>
   (q \<noteq> indexPath \<longrightarrow> files (snd (updateStagingArea s p h)) q = files s q)"
  by (auto simp: updateStagingArea_def writeFile_def split: sum.splits option.splits if_splits)

text \<open>
  C9: \<^verbatim>\<open>add\<close> on a source path whose read fails leaves the whole state as it was: no object
  is written and the index is not touched; the failure is reported.
\<close>

theorem add_unreadable_leaves_state: "readFile s p = Inl e \<Longrightarrow> add s p = ([ErrorAdding e], s)"
  by (simp add: add_def)

theorem add_unreadable_leaves_state_witness:
  "readFile fresh_repo (js ''missing.txt'') = Inl ENOENT \<and>
   add fresh_repo (js ''missing.txt'') = ([ErrorAdding ENOENT], fresh_repo)"
proof -
  have r: "readFile fresh_repo (js ''missing.txt'') = Inl ENOENT"
    by (simp add: readFile_def dirs_fresh files_fresh js_def)
  from r add_unreadable_leaves_state [OF r] show ?thesis by simp
qed

lemma add_object:
  assumes "initialised s" and "readFile s p = Inr t"
  shows "files (snd (add s p)) (path_join [objectsPath, hashObject t]) = Some (utf8_encode t)"
    and "dirs (snd (add s p)) = dirs s"
proof -
  let ?o = "js ''.arigit/objects/'' @ hashObject t"
  let ?s1 = "s\<lparr>files := (files s)(?o \<mapsto> utf8_encode t)\<rparr>"
  have w: "writeFile s (path_join [objectsPath, hashObject t]) t = Inr ?s1"
    using assms(1) by (simp add: write_object hashObject_plain)
  have s2: "snd (add s p) = snd (updateStagingArea ?s1 p (hashObject t))"
    using assms(2) w by (simp add: add_def Let_def split: prod.splits)
  have "?o \<noteq> indexPath"
    by (simp add: indexPath_eq object_neq_index)
  then have "files (snd (add s p)) ?o = files ?s1 ?o"
    using stage_frame [of ?s1 p "hashObject t" ?o] s2 by simp
  then show "files (snd (add s p)) (path_join [objectsPath, hashObject t]) = Some (utf8_encode t)"
    by (simp add: object_path hashObject_plain)
  show "dirs (snd (add s p)) = dirs s"
    using stage_frame [of ?s1 p "hashObject t" ?o] s2 by simp
qed

text \<open>
  C1, as amended: for every content \<open>c\<close> that is well-formed UTF-8 (decoding and encoding it
  again gives \<open>c\<close> back), after \<^verbatim>\<open>add\<close> on a file that holds \<open>c\<close> in an initialised repository
  the object stored under the SHA-1 digest of \<open>c\<close> holds exactly \<open>c\<close>, and reading it back gives
  the text of \<open>c\<close>. The digest that \<^verbatim>\<open>add\<close> computes is the SHA-1 digest of the bytes, a
  function of the bytes, written as 40 lower-case hexadecimal digits (160 bits).
\<close>

theorem add_then_get:
  assumes "initialised s" and "p \<notin> dirs s" and "files s p = Some c"
    and "utf8_encode (utf8_decode c) = c"
  shows "files (snd (add s p)) (path_join [objectsPath, sha1_hex c]) = Some c \<and>
         getFileContent (snd (add s p)) (Some (JStr (sha1_hex c))) = Inr (utf8_decode c) \<and>
         hashObject (utf8_decode c) = sha1_hex c \<and>
         length (sha1_hex c) = 40 \<and> list_all is_hex (sha1_hex c)"
proof -
  have r: "readFile s p = Inr (utf8_decode c)"
    using assms(2,3) by (simp add: readFile_def)
  have h: "hashObject (utf8_decode c) = sha1_hex c"
    by (simp add: hashObject_def assms(4))
  have f: "files (snd (add s p)) (path_join [objectsPath, sha1_hex c]) = Some c"
    using add_object(1) [OF assms(1) r] by (simp add: h assms(4))
  have d: "dirs (snd (add s p)) = dirs s"
    by (rule add_object(2) [OF assms(1) r])
  have "path_join [objectsPath, sha1_hex c] \<notin> dirs s"
    using assms(1) hashObject_plain [of "utf8_decode c"]
    by (simp add: h object_path object_not_dir)
  with f d have "getFileContent (snd (add s p)) (Some (JStr (sha1_hex c))) = Inr (utf8_decode c)"
    by (simp add: getFileContent_def readFile_def)
  with f h show ?thesis
    by (simp add: sha1_hex_props)
qed

theorem add_then_get_witness:
  "initialised work_repo \<and> js ''a.txt'' \<notin> dirs work_repo \<and>
   files work_repo (js ''a.txt'') = Some (utf8_encode (js ''hello'')) \<and>
   utf8_encode (utf8_decode (utf8_encode (js ''hello''))) = utf8_encode (js ''hello'') \<and>
   files (snd (add work_repo (js ''a.txt'')))
     (path_join [objectsPath, sha1_hex (utf8_encode (js ''hello''))]) = Some (utf8_encode (js ''hello'')) \<and>
   getFileContent (snd (add work_repo (js ''a.txt'')))
     (Some (JStr (sha1_hex (utf8_encode (js ''hello''))))) = Inr (js ''hello'')"
proof -
  have i: "initialised work_repo"
    using initialised_fresh by (simp add: work_repo_def)
  have d: "js ''a.txt'' \<notin> dirs work_repo"
    by (simp add: work_repo_def dirs_fresh js_def)
  have f: "files work_repo (js ''a.txt'') = Some (utf8_encode (js ''hello''))"
    by (simp add: work_repo_def)
  have u: "utf8_decode (utf8_encode (js ''hello'')) = js ''hello''"
    by (simp add: js_def is_high_def is_low_def enc_cp_def)
  then have c: "utf8_encode (utf8_decode (utf8_encode (js ''hello''))) = utf8_encode (js ''hello'')"
    by simp
  from i d f c u add_then_get [OF i d f c] show ?thesis by simp
qed

text \<open>
  C1 as stated fails on content that is not UTF-8: \<^verbatim>\<open>add\<close> on a file that holds the byte 0xFF
  reads the text U+FFFD, and the object it stores holds the three bytes of U+FFFD; no object
  holds the byte 0xFF under its digest.
\<close>

theorem add_then_get_counterexample:
  "files (snd (add binary_repo (js ''f''))) (path_join [objectsPath, sha1_hex [0xFF]]) \<noteq> Some [0xFF] \<and>
   files (snd (add binary_repo (js ''f''))) (path_join [objectsPath, hashObject (utf8_decode [0xFF])])
     = Some [0xEF, 0xBF, 0xBD]"
proof -
  let ?s' = "snd (add binary_repo (js ''f''))"
  let ?d = "hashObject (utf8_decode [0xFF])"
  let ?o = "js ''.arigit/objects/'' @ ?d"
  let ?s1 = "binary_repo\<lparr>files := (files binary_repo)(?o \<mapsto> utf8_encode (utf8_decode [0xFF]))\<rparr>"
  have i: "initialised binary_repo"
    using initialised_fresh by (simp add: binary_repo_def)
  have r: "readFile binary_repo (js ''f'') = Inr (utf8_decode [0xFF])"
    by (simp add: readFile_def binary_repo_def dirs_fresh js_def)
  have stored: "files ?s' (path_join [objectsPath, ?d]) = Some [0xEF, 0xBF, 0xBD]"
    using add_object(1) [OF i r] by (simp add: is_high_def is_low_def enc_cp_def)
  have w: "writeFile binary_repo (path_join [objectsPath, ?d]) (utf8_decode [0xFF]) = Inr ?s1"
    using i by (simp add: write_object hashObject_plain)
  have s2: "?s' = snd (updateStagingArea ?s1 (js ''f'') ?d)"
    using r w by (simp add: add_def Let_def split: prod.splits)
  let ?q = "js ''.arigit/objects/'' @ sha1_hex [0xFF]"
  have q: "path_join [objectsPath, sha1_hex [0xFF]] = ?q"
    by (simp add: object_path hex_plain sha1_hex_props)
  have "?q \<noteq> indexPath"
    by (simp add: indexPath_eq object_neq_index)
  then have "files ?s' ?q = files ?s1 ?q"
    using stage_frame [of ?s1 "js ''f''" ?d ?q] s2 by simp
  moreover have "files ?s1 ?q \<noteq> Some [0xFF]"
    by (simp add: binary_repo_def files_fresh is_high_def is_low_def enc_cp_def js_def)
  ultimately show ?thesis
    using stored q by simp
qed

lemma staging_index_read:
  "staging_index s = Some v \<Longrightarrow> \<exists>text. readFile s indexPath = Inr text \<and> JSON_parse text = Some v"
  by (auto simp: staging_index_def split: sum.splits)




section \<open>\<^verbatim>\<open>commit\<close>\<close>

text \<open>What a commit does in an initialised repository whose index is JSON text.\<close>

lemma commit_run:
  assumes "initialised s" and "staging_index s = Some index"
    and "getCurrentHead s = (msgs, parentCommit)"
    and "commitData = commitData_of e message index parentCommit"
    and "commitHash = hashObject (JSON_stringify commitData)"
  shows "commit e s message =
           (msgs @ [CommitCreated commitHash],
            s\<lparr>files := (files s)
                 (path_join [objectsPath, commitHash] \<mapsto> utf8_encode (JSON_stringify commitData),
                  headPath \<mapsto> utf8_encode commitHash,
                  indexPath \<mapsto> utf8_encode (js ''[]''))\<rparr>)"
proof -
  from assms(2) obtain t where t: "readFile s indexPath = Inr t" "JSON_parse t = Some index"
    by (auto dest: staging_index_read)
  let ?S = "JSON_stringify commitData"
  let ?s1 = "s\<lparr>files := (files s)(js ''.arigit/objects/'' @ commitHash \<mapsto> utf8_encode ?S)\<rparr>"
  let ?s2 = "?s1\<lparr>files := (files ?s1)(js ''.arigit/HEAD'' \<mapsto> utf8_encode commitHash)\<rparr>"
  have p: "plain_name commitHash"
    by (simp add: assms(5) hashObject_plain)
  have w1: "writeFile s (path_join [objectsPath, commitHash]) ?S = Inr ?s1"
    using assms(1) p by (rule write_object)
  have w2: "writeFile ?s1 headPath commitHash = Inr ?s2"
    using assms(1) by (simp add: write_head)
  have w3: "writeFile ?s2 indexPath (JSON_stringify (JArr [])) =
              Inr (?s2\<lparr>files := (files ?s2)(js ''.arigit/index'' \<mapsto> utf8_encode (js ''[]''))\<rparr>)"
    using assms(1) by (simp add: write_index js_def)
  have "commit e s message =
          (msgs @ [CommitCreated commitHash],
           ?s2\<lparr>files := (files ?s2)(js ''.arigit/index'' \<mapsto> utf8_encode (js ''[]''))\<rparr>)"
    unfolding commit_def
    by (simp only: t assms(3) assms(4) [symmetric] assms(5) [symmetric] Let_def w1 w2 w3
        sum.case option.case prod.case)
  then show ?thesis
    by (simp add: object_path p headPath_eq indexPath_eq)
qed

lemma commit_frame:
  assumes "initialised s" and "staging_index s = Some index"
  shows "dirs (snd (commit e s message)) = dirs s"
proof -
  obtain msgs par where "getCurrentHead s = (msgs, par)"
    by (cases "getCurrentHead s")
  from commit_run [OF assms this refl refl] show ?thesis by simp
qed

lemma head_text: "readFile s headPath = Inr h \<Longrightarrow> getCurrentHead s = ([], JStr h)"
  by (simp add: getCurrentHead_def)


lemma read_after_write:
  "p \<notin> dirs s \<Longrightarrow> readFile (s\<lparr>files := (files s)(p \<mapsto> b)\<rparr>) p = Inr (utf8_decode b)"
  by (simp add: readFile_def)


lemma fresh_index: "staging_index fresh_repo = Some (JArr [])"
  by (simp add: staging_index_def readFile_def dirs_fresh files_fresh indexPath_eq empty_index_text)
     (simp add: js_def)

lemma fresh_head: "readFile fresh_repo headPath = Inr []"
  by (simp add: readFile_def dirs_fresh files_fresh headPath_eq) (simp add: js_def)




text \<open>
  C3: a commit on an empty Staging Index succeeds, whatever HEAD holds: the record it
  stores has the empty sequence as its files.
\<close>

theorem commit_empty_index:
  assumes "initialised s" and "staging_index s = Some (JArr [])"
  shows "let commitData = commitData_of e message (JArr []) (snd (getCurrentHead s));
             commitHash = hashObject (JSON_stringify commitData);
             s' = snd (commit e s message)
         in last (fst (commit e s message)) = CommitCreated commitHash \<and>
            files s' (path_join [objectsPath, commitHash]) = Some (utf8_encode (JSON_stringify commitData)) \<and>
            field commitData (js ''files'') = Some (JArr [])"
proof -
  obtain msgs par where g: "getCurrentHead s = (msgs, par)"
    by (cases "getCurrentHead s")
  let ?cd = "commitData_of e message (JArr []) par"
  let ?d = "hashObject (JSON_stringify ?cd)"
  have run: "commit e s message =
           (msgs @ [CommitCreated ?d],
            s\<lparr>files := (files s)
                 (path_join [objectsPath, ?d] \<mapsto> utf8_encode (JSON_stringify ?cd),
                  headPath \<mapsto> utf8_encode ?d,
                  indexPath \<mapsto> utf8_encode (js ''[]''))\<rparr>)"
    using assms g refl refl by (rule commit_run)
  have neq: "path_join [objectsPath, ?d] \<noteq> headPath" "path_join [objectsPath, ?d] \<noteq> indexPath"
    by (simp_all add: object_path hashObject_plain headPath_eq indexPath_eq object_neq_head
        object_neq_index)
  have f: "field ?cd (js ''files'') = Some (JArr [])"
    by (simp add: field_def commitData_of_def js_def)
  from neq f show ?thesis
    by (simp add: Let_def g run del: JSON_stringify.simps)
qed

theorem commit_empty_index_witness:
  "initialised fresh_repo \<and> staging_index fresh_repo = Some (JArr []) \<and>
   (let commitData = commitData_of env0 (js ''empty'') (JArr []) (snd (getCurrentHead fresh_repo));
        commitHash = hashObject (JSON_stringify commitData);
        s' = snd (commit env0 fresh_repo (js ''empty''))
    in last (fst (commit env0 fresh_repo (js ''empty''))) = CommitCreated commitHash \<and>
       files s' (path_join [objectsPath, commitHash]) = Some (utf8_encode (JSON_stringify commitData)) \<and>
       field commitData (js ''files'') = Some (JArr []))"
  using initialised_fresh fresh_index
    commit_empty_index [OF initialised_fresh fresh_index, of env0 "js ''empty''"]
  by simp





text \<open>
  C10, as amended: when the index cannot be read, or its text is not JSON text, the commit
  aborts before any write: nothing is stored, HEAD and the index file are as before.
\<close>

theorem commit_unparsable_index:
  "staging_index s = None \<Longrightarrow>
   snd (commit e s message) = s \<and>
   (\<exists>err. fst (commit e s message) = [ErrorCommitting err])"
  by (auto simp: staging_index_def commit_def split: sum.splits)

lemma broken_index: "staging_index broken_index_repo = None"
  by (simp add: staging_index_def readFile_def broken_index_repo_def dirs_fresh indexPath_eq
      js_def is_high_def is_low_def enc_cp_def JSON_parse_def skip_ws_def is_ws_def
      starts_with_def parse_number_def parse_int_part_def digits1_def is_digit_def)

theorem commit_unparsable_index_witness:
  "staging_index broken_index_repo = None \<and>
   snd (commit env0 broken_index_repo (js ''first'')) = broken_index_repo \<and>
   (\<exists>err. fst (commit env0 broken_index_repo (js ''first'')) = [ErrorCommitting err])"
  using broken_index commit_unparsable_index [OF broken_index, of env0 "js ''first''"]
  by simp

lemma object_index_facts:
  "initialised object_index_repo" "staging_index object_index_repo = Some (JObj [])"
  "readFile object_index_repo headPath = Inr []"
proof -
  show "initialised object_index_repo"
    using initialised_fresh by (simp add: object_index_repo_def)
  show "staging_index object_index_repo = Some (JObj [])"
    by (simp add: staging_index_def readFile_def object_index_repo_def dirs_fresh indexPath_eq
      js_def is_high_def is_low_def enc_cp_def JSON_parse_def skip_ws_def is_ws_def)
  show "readFile object_index_repo headPath = Inr []"
    by (simp add: readFile_def object_index_repo_def dirs_fresh files_fresh headPath_eq indexPath_eq)
       (simp add: js_def)
qed

text \<open>
  C10 as stated fails: the index text \<^verbatim>\<open>{}\<close> is JSON text and not a sequence; the commit does
  not abort, it stores a record whose files are that object, writes HEAD and rewrites the
  index.
\<close>

theorem commit_unparsable_index_counterexample:
  "staging_index object_index_repo = Some (JObj []) \<and>
   fst (commit env0 object_index_repo (js ''first'')) =
     [CommitCreated (hashObject (JSON_stringify
        (commitData_of env0 (js ''first'') (JObj []) (JStr []))))] \<and>
   files (snd (commit env0 object_index_repo (js ''first''))) indexPath
     \<noteq> files object_index_repo indexPath \<and>
   files (snd (commit env0 object_index_repo (js ''first''))) headPath
     \<noteq> files object_index_repo headPath"
proof -
  let ?cd = "commitData_of env0 (js ''first'') (JObj []) (JStr [])"
  let ?d = "hashObject (JSON_stringify ?cd)"
  have run: "commit env0 object_index_repo (js ''first'') =
           ([] @ [CommitCreated ?d],
            object_index_repo\<lparr>files := (files object_index_repo)
                 (path_join [objectsPath, ?d] \<mapsto> utf8_encode (JSON_stringify ?cd),
                  headPath \<mapsto> utf8_encode ?d,
                  indexPath \<mapsto> utf8_encode (js ''[]''))\<rparr>)"
    using object_index_facts(1,2) head_text [OF object_index_facts(3)] refl refl
    by (rule commit_run)
  have ix: "files object_index_repo indexPath = Some (utf8_encode (js ''{}''))"
    by (simp add: object_index_repo_def)
  have ne: "utf8_encode (js ''[]'') \<noteq> utf8_encode (js ''{}'')"
    by (simp add: js_def is_high_def is_low_def enc_cp_def)
  have hd: "files object_index_repo headPath = Some []"
    by (simp add: object_index_repo_def files_fresh headPath_eq indexPath_eq) (simp add: js_def)
  have "utf8_encode ?d \<noteq> []"
  proof
    assume "utf8_encode ?d = []"
    then have "utf8_decode (utf8_encode ?d) = []" by simp
    then have "length ?d = 0" by (simp add: utf8_hashObject)
    then show False by (simp add: hashObject_length)
  qed
  with ix ne hd object_index_facts(2) show ?thesis
    by (simp add: run headPath_eq indexPath_eq head_neq_index del: JSON_stringify.simps)
qed

section \<open>\<^verbatim>\<open>log\<close>\<close>

lemma get_prop_not_null: "c \<noteq> JNull \<Longrightarrow> get_prop c k = Inr (field c k)"
  by (cases c) (simp_all add: field_def)







section \<open>\<^verbatim>\<open>diffLines\<close>\<close>

lemma concat_lines_acc: "concat (lines_acc acc t) = rev acc @ t"
  by (induction t arbitrary: acc) simp_all

lemma concat_split_lines: "concat (split_lines t) = t"
  by (simp add: split_lines_def concat_lines_acc)

lemma lcs_same: "lcs xs xs = xs"
  by (induction xs) simp_all

lemma align_same: "align xs xs xs = map (Pair Unchanged) xs"
  by (induction xs) simp_all

lemma group_runs_unchanged:
  "group_runs (map (Pair Unchanged) ls) = (if ls = [] then [] else [(Unchanged, concat ls)])"
  by (induction ls) (simp_all split: list.splits)

lemma diffLines_same: "diffLines t t = (if split_lines t = [] then [] else [(Unchanged, t)])"
  by (simp add: diffLines_def lcs_same align_same group_runs_unchanged concat_split_lines)

text \<open>
  C7: \<^verbatim>\<open>diffLines(t, t)\<close> yields only unchanged segments, and the segments, one after the
  other, are the text \<open>t\<close>.
\<close>

theorem diffLines_identical:
  "list_all (\<lambda>seg. fst seg = Unchanged) (diffLines t t) \<and> concat (map snd (diffLines t t)) = t"
proof (cases "split_lines t = []")
  case True
  then have "concat (split_lines t) = []" by simp
  then have "t = []" by (simp add: concat_split_lines)
  with True show ?thesis by (simp add: diffLines_same)
next
  case False
  then show ?thesis by (simp add: diffLines_same)
qed

section \<open>\<^verbatim>\<open>showCommitDiff\<close>\<close>

lemma field_Some_object: "field x k = Some v \<Longrightarrow> x \<noteq> JNull \<and> truthy x"
  by (cases x) (simp_all add: field_def)

lemma strict_eq_string: "strict_eq q (Some (JStr p)) \<longleftrightarrow> q = Some (JStr p)"
proof (cases q)
  case None
  then show ?thesis by simp
next
  case (Some v)
  then show ?thesis by (cases v) simp_all
qed

lemma find_file_first:
  assumes "list_all (\<lambda>f. f \<noteq> JNull \<and> field f (js ''path'') \<noteq> Some (JStr p)) before"
    and "field entry (js ''path'') = Some (JStr p)"
  shows "find_file (before @ entry # after) (Some (JStr p)) = Inr (Some entry)"
  using assms
proof (induction before)
  case Nil
  then show ?case
    using field_Some_object [of entry "js ''path''"]
    by (simp add: get_prop_not_null strict_eq_string)
next
  case (Cons f before)
  then show ?case
    by (simp add: get_prop_not_null strict_eq_string)
qed

lemma parent_content_first:
  assumes "field parentCommitData (js ''files'') = Some (JArr (before @ entry # after))"
    and "list_all (\<lambda>f. f \<noteq> JNull \<and> field f (js ''path'') \<noteq> Some (JStr p)) before"
    and "field entry (js ''path'') = Some (JStr p)"
    and "getFileContent s (field entry (js ''hash'')) = Inr parentFileContent"
  shows "getParentFileContent s parentCommitData (Some (JStr p)) = Inr (Some parentFileContent)"
proof -
  from assms(1) have "get_prop parentCommitData (js ''files'') = Inr (Some (JArr (before @ entry # after)))"
    using field_Some_object [of parentCommitData "js ''files''"] by (simp add: get_prop_not_null)
  moreover from assms(3) have "truthy entry"
    and "get_prop entry (js ''hash'') = Inr (field entry (js ''hash''))"
    using field_Some_object [of entry "js ''path''"] by (simp_all add: get_prop_not_null)
  ultimately show ?thesis
    using find_file_first [OF assms(2,3), of after] assms(4)
    by (simp add: getParentFileContent_def)
qed

text \<open>
  C6, as amended: for a file of a commit whose parent commit holds one or more entries with
  the path of the file, \<^verbatim>\<open>showCommitDiff\<close> computes the diff against the blob of the first
  entry with that path in the files of the parent, whatever entries follow it.
\<close>

theorem show_diffs_against_first_entry:
  assumes "field file (js ''path'') = Some (JStr p)"
    and "getFileContent s (field file (js ''hash'')) = Inr fileContent"
    and "field commitData (js ''parent'') = Some (JStr parent)" and "parent \<noteq> []"
    and "commit_at s parent = Some parentCommitData"
    and "field parentCommitData (js ''files'') = Some (JArr (before @ entry # after))"
    and "list_all (\<lambda>f. f \<noteq> JNull \<and> field f (js ''path'') \<noteq> Some (JStr p)) before"
    and "field entry (js ''path'') = Some (JStr p)"
    and "getFileContent s (field entry (js ''hash'')) = Inr parentFileContent"
  shows "show_file s commitData file =
           ([FileHeader (Some (JStr p)), FileContent fileContent, DiffHeader]
              @ map render (diffLines parentFileContent fileContent), None)"
proof -
  have f: "get_prop file (js ''path'') = Inr (Some (JStr p))"
    "get_prop file (js ''hash'') = Inr (field file (js ''hash''))"
    using assms(1) field_Some_object [of "file" "js ''path''"] by (simp_all add: get_prop_not_null)
  have c: "get_prop commitData (js ''parent'') = Inr (Some (JStr parent))"
    using assms(3) field_Some_object [of commitData "js ''parent''"] by (simp add: get_prop_not_null)
  from assms(5) obtain t where "readFile s (path_join [objectsPath, parent]) = Inr t"
    and "JSON_parse t = Some parentCommitData"
    by (auto simp: commit_at_def split: sum.splits)
  then have g: "getCommitData s (Some (JStr parent)) = ([], Some t)"
    and j: "JSON_parse_text (Some t) = Some parentCommitData"
    by (simp_all add: getCommitData_def JSON_parse_text_def)
  have "getParentFileContent s parentCommitData (Some (JStr p)) = Inr (Some parentFileContent)"
    using assms(6-9) by (rule parent_content_first)
  with f c g j assms(2,4) show ?thesis
    by (simp add: show_file_def falsy_def)
qed

lemma example_hashes_plain:
  "plain_name hash_one" "plain_name hash_two" "plain_name hash_three"
  "plain_name hash_parent" "plain_name hash_child"
  by (simp_all add: plain_name_def hash_one_def hash_two_def hash_three_def hash_parent_def
      hash_child_def js_def)

lemma example_hashes_distinct:
  "distinct [hash_one, hash_two, hash_parent, hash_three, hash_child]"
  by (simp add: hash_one_def hash_two_def hash_three_def hash_parent_def hash_child_def js_def)

lemma two_commit_files:
  "files two_commit_repo (js ''.arigit/objects/'' @ hash_one) = Some (utf8_encode blob_one)"
  "files two_commit_repo (js ''.arigit/objects/'' @ hash_two) = Some (utf8_encode blob_two)"
  "files two_commit_repo (js ''.arigit/objects/'' @ hash_three) = Some (utf8_encode blob_three)"
  "files two_commit_repo (js ''.arigit/objects/'' @ hash_parent) =
     Some (utf8_encode (JSON_stringify parent_record))"
  "files two_commit_repo (js ''.arigit/objects/'' @ hash_child) =
     Some (utf8_encode (JSON_stringify child_record))"
  using example_hashes_distinct
  by (simp_all add: two_commit_repo_def object_path example_hashes_plain headPath_eq
      object_neq_head del: JSON_stringify.simps)

lemma initialised_two_commit: "initialised two_commit_repo"
  using initialised_fresh by (simp add: two_commit_repo_def)

lemma two_commit_read:
  assumes "plain_name h" and "files two_commit_repo (js ''.arigit/objects/'' @ h) = Some b"
  shows "readFile two_commit_repo (path_join [objectsPath, h]) = Inr (utf8_decode b)"
  using assms object_not_dir [OF initialised_two_commit, of h]
  by (simp add: readFile_def object_path)

lemma two_commit_blobs:
  "getFileContent two_commit_repo (Some (JStr hash_one)) = Inr blob_one"
  "getFileContent two_commit_repo (Some (JStr hash_two)) = Inr blob_two"
  "getFileContent two_commit_repo (Some (JStr hash_three)) = Inr blob_three"
proof -
  have "utf8_decode (utf8_encode blob_one) = blob_one"
    "utf8_decode (utf8_encode blob_two) = blob_two"
    "utf8_decode (utf8_encode blob_three) = blob_three"
    by (simp_all add: blob_one_def blob_two_def blob_three_def js_def is_high_def is_low_def
        enc_cp_def)
  then show "getFileContent two_commit_repo (Some (JStr hash_one)) = Inr blob_one"
    "getFileContent two_commit_repo (Some (JStr hash_two)) = Inr blob_two"
    "getFileContent two_commit_repo (Some (JStr hash_three)) = Inr blob_three"
    by (simp_all add: getFileContent_def two_commit_read example_hashes_plain two_commit_files)
qed

lemma example_records_text:
  "JSON_parse (utf8_decode (utf8_encode (JSON_stringify parent_record))) = Some parent_record"
  "JSON_parse (utf8_decode (utf8_encode (JSON_stringify child_record))) = Some child_record"
  by (simp_all add: parent_record_def child_record_def commitData_of_def env0_def env1_def
      username_of_def or_null_def entry_one_def entry_two_def entry_three_def staging_entry_def
      hash_one_def hash_two_def hash_three_def hash_parent_def
      js_def quoteJSON_def escape_unit_def
      is_high_def is_low_def enc_cp_def JSON_parse_def skip_ws_def is_ws_def
      cons_fst_def obj_put_def is_index_key_def is_digit_def starts_with_def)

lemma two_commit_records:
  "commit_at two_commit_repo hash_parent = Some parent_record"
  "commit_at two_commit_repo hash_child = Some child_record"
  by (simp_all add: commit_at_def two_commit_read example_hashes_plain two_commit_files
      example_records_text del: JSON_stringify.simps)

lemma example_record_fields:
  "field child_record (js ''parent'') = Some (JStr hash_parent)"
  "field child_record (js ''files'') = Some (JArr [entry_three])"
  "field parent_record (js ''files'') = Some (JArr ([] @ entry_one # [entry_two]))"
  "field entry_one (js ''path'') = Some (JStr (js ''a.txt''))"
  "field entry_two (js ''path'') = Some (JStr (js ''a.txt''))"
  "field entry_three (js ''path'') = Some (JStr (js ''a.txt''))"
  "field entry_one (js ''hash'') = Some (JStr hash_one)"
  "field entry_two (js ''hash'') = Some (JStr hash_two)"
  "field entry_three (js ''hash'') = Some (JStr hash_three)"
  by (simp_all add: field_def child_record_def parent_record_def commitData_of_def or_null_def
      entry_one_def entry_two_def entry_three_def staging_entry_def hash_parent_def js_def)

lemma example_diff:
  "diffLines blob_one blob_three = [(Removed, blob_one), (Added, blob_three)]"
  "diffLines blob_two blob_three = [(Removed, blob_two), (Added, blob_three)]"
  by (simp_all add: diffLines_def split_lines_def blob_one_def blob_two_def blob_three_def js_def)

theorem show_diffs_against_first_entry_witness:
  "field entry_three (js ''path'') = Some (JStr (js ''a.txt'')) \<and>
   getFileContent two_commit_repo (field entry_three (js ''hash'')) = Inr blob_three \<and>
   field child_record (js ''parent'') = Some (JStr hash_parent) \<and> hash_parent \<noteq> [] \<and>
   commit_at two_commit_repo hash_parent = Some parent_record \<and>
   field parent_record (js ''files'') = Some (JArr ([] @ entry_one # [entry_two])) \<and>
   field entry_one (js ''path'') = Some (JStr (js ''a.txt'')) \<and>
   field entry_two (js ''path'') = Some (JStr (js ''a.txt'')) \<and>
   getFileContent two_commit_repo (field entry_one (js ''hash'')) = Inr blob_one \<and>
   show_file two_commit_repo child_record entry_three =
     ([FileHeader (Some (JStr (js ''a.txt''))), FileContent blob_three, DiffHeader,
       DiffRemoved blob_one, DiffAdded blob_three], None)"
proof -
  have n: "hash_parent \<noteq> []"
    by (simp add: hash_parent_def js_def)
  have b: "list_all (\<lambda>f. f \<noteq> JNull \<and> field f (js ''path'') \<noteq> Some (JStr (js ''a.txt''))) []"
    by simp
  have g3: "getFileContent two_commit_repo (field entry_three (js ''hash'')) = Inr blob_three"
    and g1: "getFileContent two_commit_repo (field entry_one (js ''hash'')) = Inr blob_one"
    by (simp_all add: example_record_fields two_commit_blobs)
  from show_diffs_against_first_entry [OF example_record_fields(6) g3 example_record_fields(1) n
      two_commit_records(1) example_record_fields(3) b example_record_fields(4) g1]
  show ?thesis
    using n g1 g3 example_record_fields two_commit_records
    by (simp add: example_diff render_def)
qed

text \<open>
  C6 as stated fails: the parent of the second commit holds two entries for \<^verbatim>\<open>a.txt\<close>, the
  last one for the blob \<^verbatim>\<open>two\<close>; \<^verbatim>\<open>showCommitDiff\<close> on the second commit prints the diff
  against the blob \<^verbatim>\<open>one\<close> of the first entry, not the diff against the blob of the last.
\<close>

theorem show_diffs_against_first_entry_counterexample:
  "field parent_record (js ''files'') = Some (JArr [entry_one, entry_two]) \<and>
   field entry_one (js ''path'') = Some (JStr (js ''a.txt'')) \<and>
   field entry_two (js ''path'') = Some (JStr (js ''a.txt'')) \<and>
   getFileContent two_commit_repo (field entry_two (js ''hash'')) = Inr blob_two \<and>
   getParentFileContent two_commit_repo parent_record (Some (JStr (js ''a.txt''))) = Inr (Some blob_one) \<and>
   blob_one \<noteq> blob_two \<and>
   showCommitDiff two_commit_repo hash_child =
     [ChangesHeader, FileHeader (Some (JStr (js ''a.txt''))), FileContent blob_three, DiffHeader,
      DiffRemoved blob_one, DiffAdded blob_three] \<and>
   showCommitDiff two_commit_repo hash_child \<noteq>
     [ChangesHeader, FileHeader (Some (JStr (js ''a.txt''))), FileContent blob_three, DiffHeader]
       @ map render (diffLines blob_two blob_three)"
proof -
  have n: "hash_parent \<noteq> []"
    by (simp add: hash_parent_def js_def)
  have b: "list_all (\<lambda>f. f \<noteq> JNull \<and> field f (js ''path'') \<noteq> Some (JStr (js ''a.txt''))) []"
    by simp
  have g3: "getFileContent two_commit_repo (field entry_three (js ''hash'')) = Inr blob_three"
    and g2: "getFileContent two_commit_repo (field entry_two (js ''hash'')) = Inr blob_two"
    and g1: "getFileContent two_commit_repo (field entry_one (js ''hash'')) = Inr blob_one"
    by (simp_all add: example_record_fields two_commit_blobs)
  have p: "getParentFileContent two_commit_repo parent_record (Some (JStr (js ''a.txt''))) = Inr (Some blob_one)"
    using example_record_fields(3) b example_record_fields(4) g1 by (rule parent_content_first)
  have sf: "show_file two_commit_repo child_record entry_three =
     ([FileHeader (Some (JStr (js ''a.txt''))), FileContent blob_three, DiffHeader]
        @ map render (diffLines blob_one blob_three), None)"
    using example_record_fields(6) g3 example_record_fields(1) n
      two_commit_records(1) example_record_fields(3) b example_record_fields(4) g1
    by (rule show_diffs_against_first_entry)
  have t: "readFile two_commit_repo (path_join [objectsPath, hash_child]) =
             Inr (utf8_decode (utf8_encode (JSON_stringify child_record)))"
    by (simp add: two_commit_read example_hashes_plain two_commit_files del: JSON_stringify.simps)
  have c: "truthy child_record" "get_prop child_record (js ''files'') = Inr (Some (JArr [entry_three]))"
    using field_Some_object [OF example_record_fields(2)] example_record_fields(2)
    by (simp_all add: get_prop_not_null)
  have sh: "showCommitDiff two_commit_repo hash_child =
     [ChangesHeader, FileHeader (Some (JStr (js ''a.txt''))), FileContent blob_three, DiffHeader,
      DiffRemoved blob_one, DiffAdded blob_three]"
    by (simp add: showCommitDiff_def getCommitData_def t JSON_parse_text_def example_records_text
        c iterate_def sf example_diff render_def del: JSON_stringify.simps)
  have ne: "blob_one \<noteq> blob_two"
    by (simp add: blob_one_def blob_two_def js_def)
  from p g2 sh ne example_record_fields show ?thesis
    by (simp add: example_diff render_def)
qed

section \<open>UTF-8 on well-formed strings\<close>

lemma byte_of_nat: "n < 256 \<Longrightarrow> unat (of_nat n :: byte) = n"
  by (simp add: unat_of_nat)

lemma decode1:
  assumes "a < 128"
  shows "utf8_decode (of_nat a # rest) = of_nat a # utf8_decode rest"
proof -
  from assms have u: "unat (of_nat a :: byte) = a"
    by (simp add: byte_of_nat)
  then have "(of_nat a :: byte) < 0x80"
    using assms by (simp add: word_less_nat_alt)
  moreover have "(ucast (of_nat a :: byte) :: unit16) = of_nat a"
    using u by (metis of_nat_unat)
  ultimately show ?thesis by simp
qed

lemma decode2:
  assumes "2 \<le> a" and "a < 32" and "r < 64"
  shows "utf8_decode (of_nat (0xC0 + a) # of_nat (0x80 + r) # rest)
           = units_of_cp (a * 64 + r) @ utf8_decode rest"
proof -
  have b: "unat (of_nat (0xC0 + a) :: byte) = 0xC0 + a"
    by (rule byte_of_nat) (use assms in simp)
  have c: "unat (of_nat (0x80 + r) :: byte) = 0x80 + r"
    by (rule byte_of_nat) (use assms in simp)
  have "\<not> (of_nat (0xC0 + a) :: byte) < 0x80"
    and "0xC2 \<le> (of_nat (0xC0 + a) :: byte)" and "(of_nat (0xC0 + a) :: byte) \<le> 0xDF"
    using assms by (simp_all only: word_less_nat_alt word_le_nat_alt b, simp_all)
  moreover have "cont (of_nat (0x80 + r))"
    unfolding cont_def using assms by (simp only: word_le_nat_alt c, simp)
  ultimately show ?thesis
    by (simp only: utf8_decode.simps if_True if_False list.case b c simp_thms) simp
qed

lemma cont_byte: "r < 64 \<Longrightarrow> cont (of_nat (0x80 + r))"
proof -
  assume "r < 64"
  then have "unat (of_nat (0x80 + r) :: byte) = 0x80 + r"
    by (intro byte_of_nat) simp
  with \<open>r < 64\<close> show ?thesis
    unfolding cont_def by (simp only: word_le_nat_alt, simp)
qed

lemma decode3:
  assumes "a < 16" and "b < 64" and "c < 64" and "a = 0 \<Longrightarrow> 32 \<le> b" and "a = 13 \<Longrightarrow> b < 32"
  shows "utf8_decode (of_nat (0xE0 + a) # of_nat (0x80 + b) # of_nat (0x80 + c) # rest)
           = units_of_cp (a * 4096 + b * 64 + c) @ utf8_decode rest"
proof -
  let ?x = "of_nat (0xE0 + a) :: byte" and ?y = "of_nat (0x80 + b) :: byte"
    and ?z = "of_nat (0x80 + c) :: byte"
  have x: "unat ?x = 0xE0 + a"
    by (rule byte_of_nat) (use assms in simp)
  have y: "unat ?y = 0x80 + b"
    by (rule byte_of_nat) (use assms in simp)
  have z: "unat ?z = 0x80 + c"
    by (rule byte_of_nat) (use assms in simp)
  have lead: "\<not> ?x < 0x80" "\<not> (0xC2 \<le> ?x \<and> ?x \<le> 0xDF)" "0xE0 \<le> ?x \<and> ?x \<le> 0xEF"
    using assms(1) by (simp_all only: word_less_nat_alt word_le_nat_alt x, simp_all)
  have e0: "?x = 0xE0 \<longleftrightarrow> a = 0" and ed: "?x = 0xED \<longleftrightarrow> a = 13"
    and f0: "?x \<noteq> 0xF0" and f4: "?x \<noteq> 0xF4"
    using assms(1) by (simp_all only: word_unat_eq_iff x, simp_all)
  have "second_ok ?x ?y"
    unfolding second_ok_def cont_def using assms
    by (simp only: e0 ed f0 f4 word_le_nat_alt y, auto)
  moreover have "cont ?z"
    using assms(3) by (rule cont_byte)
  ultimately show ?thesis
    using lead by (simp only: utf8_decode.simps if_True if_False list.case x y z simp_thms) simp
qed

lemma decode4:
  assumes "a < 5" and "b < 64" and "c < 64" and "d < 64" and "a = 0 \<Longrightarrow> 16 \<le> b"
    and "a = 4 \<Longrightarrow> b < 16"
  shows "utf8_decode (of_nat (0xF0 + a) # of_nat (0x80 + b) # of_nat (0x80 + c) # of_nat (0x80 + d) # rest)
           = units_of_cp (a * 262144 + b * 4096 + c * 64 + d) @ utf8_decode rest"
proof -
  let ?x = "of_nat (0xF0 + a) :: byte" and ?y = "of_nat (0x80 + b) :: byte"
    and ?z = "of_nat (0x80 + c) :: byte" and ?w = "of_nat (0x80 + d) :: byte"
  have x: "unat ?x = 0xF0 + a"
    by (rule byte_of_nat) (use assms in simp)
  have y: "unat ?y = 0x80 + b"
    by (rule byte_of_nat) (use assms in simp)
  have z: "unat ?z = 0x80 + c"
    by (rule byte_of_nat) (use assms in simp)
  have w: "unat ?w = 0x80 + d"
    by (rule byte_of_nat) (use assms in simp)
  have lead: "\<not> ?x < 0x80" "\<not> (0xC2 \<le> ?x \<and> ?x \<le> 0xDF)" "\<not> (0xE0 \<le> ?x \<and> ?x \<le> 0xEF)"
    "0xF0 \<le> ?x \<and> ?x \<le> 0xF4"
    using assms(1) by (simp_all only: word_less_nat_alt word_le_nat_alt x, simp_all)
  have e0: "?x \<noteq> 0xE0" and ed: "?x \<noteq> 0xED"
    and f0: "?x = 0xF0 \<longleftrightarrow> a = 0" and f4: "?x = 0xF4 \<longleftrightarrow> a = 4"
    using assms(1) by (simp_all only: word_unat_eq_iff x, simp_all)
  have "second_ok ?x ?y"
    unfolding second_ok_def cont_def using assms
    by (simp only: e0 ed f0 f4 word_le_nat_alt y, auto)
  moreover have "cont ?z" and "cont ?w"
    using assms(3,4) by (simp_all only: cont_byte)
  ultimately show ?thesis
    using lead by (simp only: utf8_decode.simps if_True if_False list.case x y z w simp_thms) simp
qed


lemma digits64_2:
  obtains a b where "(cp::nat) = a * 64 + b" and "b < 64" and "cp div 64 = a" and "cp mod 64 = b"
  using that [of "cp div 64" "cp mod 64"] by simp

lemma digits64_3:
  obtains a b c where "(cp::nat) = (a * 64 + b) * 64 + c" and "b < 64" and "c < 64"
    and "cp div 4096 = a" and "cp div 64 mod 64 = b" and "cp mod 64 = c"
proof -
  have "cp div 4096 = cp div 64 div 64"
    by (simp add: div_mult2_eq)
  moreover have "cp = (cp div 64 div 64 * 64 + cp div 64 mod 64) * 64 + cp mod 64"
    by simp
  ultimately show ?thesis
    using that [of "cp div 64 div 64" "cp div 64 mod 64" "cp mod 64"] by simp
qed

lemma digits64_4:
  obtains a b c d where "(cp::nat) = ((a * 64 + b) * 64 + c) * 64 + d" and "b < 64" and "c < 64"
    and "d < 64" and "cp div 262144 = a" and "cp div 4096 mod 64 = b" and "cp div 64 mod 64 = c"
    and "cp mod 64 = d"
proof -
  have "cp div 4096 = cp div 64 div 64" and "cp div 262144 = cp div 64 div 64 div 64"
    by (simp_all add: div_mult2_eq)
  moreover have "cp = ((cp div 64 div 64 div 64 * 64 + cp div 64 div 64 mod 64) * 64
                         + cp div 64 mod 64) * 64 + cp mod 64"
    by simp
  ultimately show ?thesis
    using that [of "cp div 64 div 64 div 64" "cp div 64 div 64 mod 64" "cp div 64 mod 64" "cp mod 64"]
    by simp
qed

lemma decode_enc_cp:
  assumes "cp < 0x110000" and "cp < 0xD800 \<or> 0xDFFF < cp"
  shows "utf8_decode (enc_cp cp @ rest) = units_of_cp cp @ utf8_decode rest"
proof -
  consider "cp < 0x80" | "0x80 \<le> cp" "cp < 0x800" | "0x800 \<le> cp" "cp < 0x10000" | "0x10000 \<le> cp"
    by linarith
  then show ?thesis
  proof cases
    case 1
    then show ?thesis
      by (simp add: enc_cp_def decode1 units_of_cp_def del: utf8_decode.simps)
  next
    case 2
    obtain a b where d: "cp = a * 64 + b" "b < 64" "cp div 64 = a" "cp mod 64 = b"
      by (rule digits64_2)
    have "utf8_decode (of_nat (0xC0 + a) # of_nat (0x80 + b) # rest)
            = units_of_cp (a * 64 + b) @ utf8_decode rest"
      by (rule decode2) (use 2 d(1,2) in simp_all)
    then show ?thesis
      using 2 by (simp add: enc_cp_def d(3,4) d(1) [symmetric] del: utf8_decode.simps of_nat_add)
  next
    case 3
    obtain a b c where d: "cp = (a * 64 + b) * 64 + c" "b < 64" "c < 64"
      "cp div 4096 = a" "cp div 64 mod 64 = b" "cp mod 64 = c"
      by (rule digits64_3)
    have "utf8_decode (of_nat (0xE0 + a) # of_nat (0x80 + b) # of_nat (0x80 + c) # rest)
            = units_of_cp (a * 4096 + b * 64 + c) @ utf8_decode rest"
      by (rule decode3) (use 3 d(1,2,3) assms(2) in simp_all)
    moreover have "a * 4096 + b * 64 + c = cp"
      using d(1) by simp
    ultimately show ?thesis
      using 3 by (simp add: enc_cp_def d(4,5,6) del: utf8_decode.simps of_nat_add)
  next
    case 4
    obtain a b c e where d: "cp = ((a * 64 + b) * 64 + c) * 64 + e" "b < 64" "c < 64" "e < 64"
      "cp div 262144 = a" "cp div 4096 mod 64 = b" "cp div 64 mod 64 = c" "cp mod 64 = e"
      by (rule digits64_4)
    have "utf8_decode (of_nat (0xF0 + a) # of_nat (0x80 + b) # of_nat (0x80 + c)
              # of_nat (0x80 + e) # rest)
            = units_of_cp (a * 262144 + b * 4096 + c * 64 + e) @ utf8_decode rest"
      by (rule decode4) (use 4 d(1,2,3,4) assms(1) in simp_all)
    moreover have "a * 262144 + b * 4096 + c * 64 + e = cp"
      using d(1) by simp
    ultimately show ?thesis
      using 4 by (simp add: enc_cp_def d(5,6,7,8) del: utf8_decode.simps of_nat_add)
  qed
qed


lemma surrogate_nat:
  "is_high u \<longleftrightarrow> 0xD800 \<le> unat u \<and> unat u \<le> 0xDBFF"
  "is_low u \<longleftrightarrow> 0xDC00 \<le> unat u \<and> unat u \<le> 0xDFFF"
  by (simp_all add: is_high_def is_low_def word_le_nat_alt)

lemma unit_bound: "unat (u :: unit16) < 0x10000"
  using unsigned_less [of u] by simp

lemma decode_plain_unit:
  assumes "\<not> is_high u" and "\<not> is_low u"
  shows "utf8_decode (enc_cp (unat u) @ rest) = u # utf8_decode rest"
proof -
  have "unat u < 0x110000"
    using unit_bound [of u] by simp
  moreover have "unat u < 0xD800 \<or> 0xDFFF < unat u"
    using assms by (auto simp: surrogate_nat)
  ultimately have "utf8_decode (enc_cp (unat u) @ rest) = units_of_cp (unat u) @ utf8_decode rest"
    by (rule decode_enc_cp)
  then show ?thesis
    using unit_bound [of u] by (simp add: units_of_cp_def)
qed

lemma decode_pair:
  assumes "is_high u" and "is_low v"
  shows "utf8_decode (enc_cp (0x10000 + (unat u - 0xD800) * 0x400 + (unat v - 0xDC00)) @ rest)
           = u # v # utf8_decode rest"
proof -
  let ?cp = "0x10000 + (unat u - 0xD800) * 0x400 + (unat v - 0xDC00)"
  obtain a b where a: "unat u = 0xD800 + a" "a < 0x400" and b: "unat v = 0xDC00 + b" "b < 0x400"
  proof -
    from assms have "unat u = 0xD800 + (unat u - 0xD800)" "unat u - 0xD800 < 0x400"
      "unat v = 0xDC00 + (unat v - 0xDC00)" "unat v - 0xDC00 < 0x400"
      by (auto simp: surrogate_nat)
    then show ?thesis by (rule that)
  qed
  have cp: "?cp = 0x10000 + a * 0x400 + b"
    by (simp add: a b)
  have "?cp < 0x110000" and "?cp < 0xD800 \<or> 0xDFFF < ?cp"
    using a(2) b(2) by (simp_all add: cp)
  then have "utf8_decode (enc_cp ?cp @ rest) = units_of_cp ?cp @ utf8_decode rest"
    by (rule decode_enc_cp)
  moreover have "(?cp - 0x10000) div 0x400 = a" "(?cp - 0x10000) mod 0x400 = b"
    using b(2) by (simp_all add: cp)
  moreover have "of_nat (0xD800 + a) = u" "of_nat (0xDC00 + b) = v"
    using a(1) b(1) by (metis of_nat_unat ucast_id)+
  ultimately show ?thesis
    by (simp add: units_of_cp_def cp del: of_nat_add)
qed

lemma utf8_round_trip: "well_formed t \<Longrightarrow> utf8_decode (utf8_encode t) = t"
proof (induction t rule: well_formed.induct)
  case 1
  then show ?case by simp
next
  case (2 u us)
  show ?case
  proof (cases "is_high u")
    case True
    with "2.prems" obtain v vs where us: "us = v # vs" and v: "is_low v" and w: "well_formed vs"
      by (cases us) auto
    from "2.IH"(1) [OF True us] v w have "utf8_decode (utf8_encode vs) = vs"
      by simp
    with True v show ?thesis
      by (simp add: us decode_pair del: utf8_decode.simps)
  next
    case False
    with "2.prems" have l: "\<not> is_low u" and w: "well_formed us"
      by simp_all
    from "2.IH"(2) [OF False] w have "utf8_decode (utf8_encode us) = us"
      by simp
    with False l show ?thesis
      by (simp add: decode_plain_unit del: utf8_decode.simps)
  qed
qed

section \<open>\<^verbatim>\<open>JSON.parse\<close> on the text of \<^verbatim>\<open>JSON.stringify\<close>\<close>

lemma hexval_hexdigit: "n < 16 \<Longrightarrow> hexval (hexdigit n) = Some n"
proof -
  have "list_all (\<lambda>n. hexval (hexdigit n) = Some n) [0..<16]"
    by (simp add: upt_conv_Cons hexval_def hexdigit_def)
  then show "n < 16 \<Longrightarrow> hexval (hexdigit n) = Some n"
    by (simp add: list_all_iff)
qed

lemma nibble16: "unat (drop_bit k (u :: unit16) AND 0xF) = unat u div 2 ^ k mod 16"
proof -
  have "unat (drop_bit k u AND mask 4) = take_bit 4 (drop_bit k (unat u))"
  proof -
    have "take_bit 16 (unat u) = unat u"
      using unit_bound [of u] by (intro take_bit_nat_eq_self) simp
    then show ?thesis
      by (simp only: take_bit_eq_mask [symmetric] unsigned_take_bit_eq unsigned_drop_bit_eq)
         simp
  qed
  moreover have "(mask 4 :: unit16) = 0xF"
    by (simp add: mask_eq_exp_minus_1)
  ultimately show ?thesis
    by (simp add: take_bit_eq_mod drop_bit_eq_div)
qed

lemma hex4_parse:
  "parse_chars (0x5C # 0x75 # hex4 u @ r) = cons_fst u (parse_chars r)"
proof -
  let ?n = "unat u"
  let ?a = "?n div 16 div 16 div 16" and ?b = "?n div 16 div 16 mod 16"
    and ?c = "?n div 16 mod 16" and ?d = "?n mod 16"
  have "?n div 4096 < 16"
    using unit_bound [of u] by simp
  moreover have "?n div 256 = ?n div 16 div 16" "?n div 4096 = ?n div 16 div 16 div 16"
    by (simp_all add: div_mult2_eq)
  ultimately have h: "hex4 u = [hexdigit ?a, hexdigit ?b, hexdigit ?c, hexdigit ?d]" and "?a < 16"
    by (simp_all add: hex4_def nibble16)
  have "((?a * 16 + ?b) * 16 + ?c) * 16 + ?d = ?n"
    by simp
  then have "of_nat (((?a * 16 + ?b) * 16 + ?c) * 16 + ?d) = u"
    by (simp only: of_nat_unat ucast_id)
  with \<open>?a < 16\<close> show ?thesis
    by (simp add: h hexval_hexdigit del: of_nat_add of_nat_mult)
qed


lemma raw_unit_parse:
  "u \<noteq> 0x22 \<Longrightarrow> u \<noteq> 0x5C \<Longrightarrow> \<not> u < 0x20 \<Longrightarrow> parse_chars (u # r) = cons_fst u (parse_chars r)"
  by simp

lemma surrogate_raw:
  assumes "is_high u \<or> is_low u"
  shows "u \<noteq> 0x22" and "u \<noteq> 0x5C" and "\<not> u < 0x20"
  using assms by (auto simp: surrogate_nat word_less_nat_alt)

lemma escape_unit_parse: "parse_chars (escape_unit u @ r) = cons_fst u (parse_chars r)"
proof -
  consider "u = 0x08" | "u = 0x09" | "u = 0x0A" | "u = 0x0C" | "u = 0x0D" | "u = 0x22" | "u = 0x5C"
    | "u \<notin> {0x08, 0x09, 0x0A, 0x0C, 0x0D, 0x22, 0x5C}" "u < 0x20"
    | "u \<notin> {0x08, 0x09, 0x0A, 0x0C, 0x0D, 0x22, 0x5C}" "\<not> u < 0x20"
    by blast
  then show ?thesis
  proof cases
    case 8
    then have "escape_unit u = 0x5C # 0x75 # hex4 u"
      by (simp add: escape_unit_def)
    then show ?thesis
      by (simp only: append_Cons hex4_parse)
  next
    case 9
    then have "escape_unit u = [u]"
      by (simp add: escape_unit_def)
    with 9 show ?thesis
      by (simp del: parse_chars.simps add: raw_unit_parse)
  qed (simp_all add: escape_unit_def unescape_def)
qed

lemma quoted_parse: "parse_chars (quote_units s @ 0x22 # rest) = Some (s, rest)"
proof (induction s rule: quote_units.induct)
  case 1
  then show ?case by simp
next
  case (2 u us)
  show ?case
  proof (cases "is_high u")
    case True
    note raw = surrogate_raw [of u] 
    show ?thesis
    proof (cases us)
      case Nil
      have "parse_chars (0x5C # 0x75 # hex4 u @ 0x22 # rest) = cons_fst u (parse_chars (0x22 # rest))"
        by (rule hex4_parse)
      with True Nil show ?thesis
        by (simp add: cons_fst_def del: parse_chars.simps) simp
    next
      case (Cons v vs)
      show ?thesis
      proof (cases "is_low v")
        case low: True
        from "2.IH"(1) [OF True Cons low]
        have "parse_chars (quote_units vs @ 0x22 # rest) = Some (vs, rest)" .
        moreover have "parse_chars (u # v # quote_units vs @ 0x22 # rest)
                         = cons_fst u (cons_fst v (parse_chars (quote_units vs @ 0x22 # rest)))"
          using surrogate_raw [of u] surrogate_raw [of v] True low
          by (simp add: raw_unit_parse del: parse_chars.simps)
        ultimately show ?thesis
          using True Cons low by (simp add: cons_fst_def del: parse_chars.simps)
      next
        case notlow: False
        from "2.IH"(2) [OF True Cons notlow]
        have "parse_chars (quote_units us @ 0x22 # rest) = Some (us, rest)" .
        moreover have "parse_chars (0x5C # 0x75 # hex4 u @ quote_units us @ 0x22 # rest)
                         = cons_fst u (parse_chars (quote_units us @ 0x22 # rest))"
          by (rule hex4_parse)
        ultimately show ?thesis
          using True Cons notlow by (simp add: cons_fst_def del: parse_chars.simps)
      qed
    qed
  next
    case False
    show ?thesis
    proof (cases "is_low u")
      case True
      from "2.IH"(3) [OF False True]
      have "parse_chars (quote_units us @ 0x22 # rest) = Some (us, rest)" .
      moreover have "parse_chars (0x5C # 0x75 # hex4 u @ quote_units us @ 0x22 # rest)
                       = cons_fst u (parse_chars (quote_units us @ 0x22 # rest))"
        by (rule hex4_parse)
      ultimately show ?thesis
        using False True by (simp add: cons_fst_def del: parse_chars.simps)
    next
      case notlow: False
      from "2.IH"(4) [OF False notlow]
      have "parse_chars (quote_units us @ 0x22 # rest) = Some (us, rest)" .
      moreover have "parse_chars (escape_unit u @ quote_units us @ 0x22 # rest)
                       = cons_fst u (parse_chars (quote_units us @ 0x22 # rest))"
        by (rule escape_unit_parse)
      ultimately show ?thesis
        using False notlow by (simp add: cons_fst_def del: parse_chars.simps)
    qed
  qed
qed

lemma stringify_starts: "printable v \<Longrightarrow> starts_value (JSON_stringify v @ r)"
  by (cases v) (simp_all add: starts_value_def js_def quoteJSON_def)

lemma starts_value_skip: "starts_value s \<Longrightarrow> skip_ws s = s"
  by (cases s) (auto simp: starts_value_def skip_ws_def is_ws_def)

lemma starts_value_first:
  assumes "starts_value s"
  obtains c r where "s = c # r" and "c \<noteq> 0x5D" and "c \<noteq> 0x7D"
  using assms by (cases s) (auto simp: starts_value_def)


lemma skip_ws_sep: "skip_ws (0x2C # r) = 0x2C # r" "skip_ws (0x5D # r) = 0x5D # r"
  "skip_ws (0x7D # r) = 0x7D # r" "skip_ws (0x3A # r) = 0x3A # r"
  by (simp_all add: skip_ws_def is_ws_def)

lemma obj_put_new:
  "k \<notin> fst ` set acc \<Longrightarrow> \<not> is_index_key k \<Longrightarrow> obj_put acc k v = acc @ [(k, v)]"
  by (simp add: obj_put_def)

lemma intercalate_Cons:
  "intercalate sep (x # xs) = x @ (if xs = [] then [] else sep @ intercalate sep xs)"
  by (cases xs) simp_all

lemma parse_elements_text:
  assumes "\<And>x n rest. x \<in> set ys \<Longrightarrow> fuel_of x \<le> n \<Longrightarrow>
             parse_value n (JSON_stringify x @ rest) = Some (x, rest)"
    and "ys \<noteq> []" and "list_all printable ys"
    and "sum_list (map (\<lambda>v. Suc (fuel_of v)) ys) \<le> m"
  shows "parse_elements m acc (intercalate (js '','') (map JSON_stringify ys) @ 0x5D # rest)
           = Some (JArr (acc @ ys), rest)"
  using assms
proof (induction ys arbitrary: m acc)
  case Nil
  then show ?case by simp
next
  case (Cons y ys)
  from Cons.prems(4) obtain m' where m: "m = Suc m'" and y: "fuel_of y \<le> m'"
    and rest: "sum_list (map (\<lambda>v. Suc (fuel_of v)) ys) \<le> m'"
    by (cases m) auto
  show ?case
  proof (cases ys)
    case Nil
    have "parse_value m' (JSON_stringify y @ 0x5D # rest) = Some (y, 0x5D # rest)"
      using Cons.prems(1) y by simp
    then show ?thesis
      by (simp add: Nil m skip_ws_sep del: JSON_stringify.simps)
  next
    case (Cons z zs)
    let ?R = "intercalate (js '','') (map JSON_stringify ys) @ 0x5D # rest"
    have "parse_value m' (JSON_stringify y @ 0x2C # ?R) = Some (y, 0x2C # ?R)"
      using Cons.prems(1) y by simp
    moreover have "starts_value ?R"
      using Cons.prems(3)
      by (simp add: Cons intercalate_Cons stringify_starts
          del: JSON_stringify.simps intercalate.simps)
    then have "skip_ws ?R = ?R"
      by (rule starts_value_skip)
    moreover have "parse_elements m' (acc @ [y]) ?R = Some (JArr ((acc @ [y]) @ ys), rest)"
      using Cons.prems rest by (intro Cons.IH) (simp_all add: Cons)
    ultimately show ?thesis
      by (simp add: Cons m skip_ws_sep js_def del: JSON_stringify.simps)
  qed
qed


lemma member_text_parse:
  assumes "parse_value n (JSON_stringify v @ r) = Some (v, r)" and "printable v"
  shows "member_text (k, v) @ r = 0x22 # quote_units k @ 0x22 # 0x3A # JSON_stringify v @ r"
    and "skip_ws (JSON_stringify v @ r) = JSON_stringify v @ r"
  using assms(2)
  by (simp_all add: member_text_def quoteJSON_def js_def starts_value_skip stringify_starts
      del: JSON_stringify.simps)

lemma parse_members_text:
  assumes "\<And>k x n rest. (k, x) \<in> set ys \<Longrightarrow> fuel_of x \<le> n \<Longrightarrow>
             parse_value n (JSON_stringify x @ rest) = Some (x, rest)"
    and "ys \<noteq> []" and "list_all (\<lambda>kv. \<not> is_index_key (fst kv) \<and> printable (snd kv)) ys"
    and "distinct (map fst (acc @ ys))"
    and "sum_list (map (\<lambda>kv. Suc (fuel_of (snd kv))) ys) \<le> m"
  shows "parse_members m acc (intercalate (js '','') (map member_text ys) @ 0x7D # rest)
           = Some (JObj (acc @ ys), rest)"
  using assms
proof (induction ys arbitrary: m acc)
  case Nil
  then show ?case by simp
next
  case (Cons kv ys)
  obtain k v where kv: "kv = (k, v)" by (cases kv)
  from Cons.prems(5) obtain m' where m: "m = Suc m'" and v: "fuel_of v \<le> m'"
    and rest: "sum_list (map (\<lambda>kv. Suc (fuel_of (snd kv))) ys) \<le> m'"
    by (cases m) (auto simp: kv)
  from Cons.prems(3) have pv: "printable v" and nk: "\<not> is_index_key k"
    by (simp_all add: kv)
  from Cons.prems(4) have new: "k \<notin> fst ` set acc"
    by (auto simp: kv)
  have put: "obj_put acc k v = acc @ [(k, v)]"
    using new nk by (rule obj_put_new)
  have pc: "\<And>r. parse_chars (quote_units k @ 0x22 # r) = Some (k, r)"
    by (rule quoted_parse)
  show ?case
  proof (cases ys)
    case Nil
    let ?r = "0x7D # rest"
    have p: "parse_value m' (JSON_stringify v @ ?r) = Some (v, ?r)"
      using Cons.prems(1) [of k v] v by (simp add: kv)
    have "parse_members (Suc m') acc (0x22 # quote_units k @ 0x22 # 0x3A # JSON_stringify v @ ?r)
            = Some (JObj (acc @ [(k, v)]), rest)"
      using member_text_parse(2) [OF p pv]
      by (simp add: pc p put skip_ws_sep del: JSON_stringify.simps)
    then show ?thesis
      using member_text_parse(1) [OF p pv, of k] by (simp add: Nil kv m)
  next
    case (Cons z zs)
    let ?R = "intercalate (js '','') (map member_text ys) @ 0x7D # rest"
    let ?r = "0x2C # ?R"
    have p: "parse_value m' (JSON_stringify v @ ?r) = Some (v, ?r)"
      using Cons.prems(1) [of k v] v by (simp add: kv)
    have "skip_ws ?R = ?R"
      by (simp add: Cons intercalate_Cons member_text_def quoteJSON_def skip_ws_def is_ws_def
          del: JSON_stringify.simps intercalate.simps)
    moreover have "parse_members m' (acc @ [(k, v)]) ?R = Some (JObj ((acc @ [(k, v)]) @ ys), rest)"
    proof (rule Cons.IH)
      show "parse_value j (JSON_stringify x @ r) = Some (x, r)"
        if "(k', x) \<in> set ys" and "fuel_of x \<le> j" for k' x j r
        using that Cons.prems(1) [of k' x j r] by simp
      show "ys \<noteq> []" by (simp add: Cons)
      show "list_all (\<lambda>kv. \<not> is_index_key (fst kv) \<and> printable (snd kv)) ys"
        using Cons.prems(3) by simp
      show "distinct (map fst ((acc @ [(k, v)]) @ ys))"
        using Cons.prems(4) by (simp add: kv)
      show "sum_list (map (\<lambda>kv. Suc (fuel_of (snd kv))) ys) \<le> m'" by (rule rest)
    qed
    ultimately have "parse_members (Suc m') acc
              (0x22 # quote_units k @ 0x22 # 0x3A # JSON_stringify v @ ?r)
            = Some (JObj (acc @ (k, v) # ys), rest)"
      using member_text_parse(2) [OF p pv]
      by (simp add: pc p put skip_ws_sep del: JSON_stringify.simps)
    then show ?thesis
      using member_text_parse(1) [OF p pv, of k]
      by (simp add: Cons kv m js_def del: JSON_stringify.simps)
  qed
qed

lemma stringify_object:
  "JSON_stringify (JObj kvs) = 0x7B # intercalate (js '','') (map member_text kvs) @ [0x7D]"
proof -
  have "(\<lambda>(k, v). quoteJSON k @ js '':'' @ JSON_stringify v) = member_text"
    by (auto simp: member_text_def)
  then show ?thesis
    by (simp add: js_def)
qed

lemma stringify_array:
  "JSON_stringify (JArr xs) = 0x5B # intercalate (js '','') (map JSON_stringify xs) @ [0x5D]"
  by (simp add: js_def)

lemma parse_stringify:
  "printable v \<Longrightarrow> fuel_of v \<le> n \<Longrightarrow> parse_value n (JSON_stringify v @ rest) = Some (v, rest)"
proof (induction v arbitrary: n rest)
  case JNull
  then obtain m where "n = Suc m" by (cases n) auto
  then show ?case
    by (simp add: js_def starts_with_def)
next
  case (JBool b)
  then obtain m where "n = Suc m" by (cases n) auto
  then show ?case
    by (cases b) (simp_all add: js_def starts_with_def)
next
  case (JNum l)
  then show ?case by simp
next
  case (JStr s)
  then obtain m where "n = Suc m" by (cases n) auto
  then show ?case
    by (simp add: quoteJSON_def quoted_parse)
next
  case (JArr xs)
  from JArr.prems(2) obtain m where n: "n = Suc m"
    and m: "sum_list (map (\<lambda>v. Suc (fuel_of v)) xs) \<le> m"
    by (cases n) auto
  show ?case
  proof (cases xs)
    case Nil
    then show ?thesis
      by (simp add: n js_def skip_ws_sep)
  next
    case (Cons y ys)
    let ?T = "intercalate (js '','') (map JSON_stringify xs) @ 0x5D # rest"
    have el: "parse_elements m [] ?T = Some (JArr ([] @ xs), rest)"
    proof (rule parse_elements_text)
      show "parse_value k (JSON_stringify x @ r) = Some (x, r)"
        if "x \<in> set xs" and "fuel_of x \<le> k" for x k r
        using that JArr.prems(1) by (intro JArr.IH) (simp_all add: list_all_iff)
      show "xs \<noteq> []" by (simp add: Cons)
      show "list_all printable xs" using JArr.prems(1) by simp
      show "sum_list (map (\<lambda>v. Suc (fuel_of v)) xs) \<le> m" by (rule m)
    qed
    have "starts_value ?T"
      using JArr.prems(1)
      by (simp add: Cons intercalate_Cons stringify_starts
          del: JSON_stringify.simps intercalate.simps)
    then obtain c r where T: "?T = c # r" and c: "c \<noteq> 0x5D" and sk: "skip_ws ?T = ?T"
      by (metis starts_value_first starts_value_skip)
    have "parse_value (Suc m) (0x5B # ?T) = Some (JArr xs, rest)"
      using el c by (simp add: sk) (simp add: T)
    then show ?thesis
      by (simp only: stringify_array n append_Cons append_assoc append_Nil)
  qed
next
  case (JObj kvs)
  from JObj.prems(2) obtain m where n: "n = Suc m"
    and m: "sum_list (map (\<lambda>kv. Suc (fuel_of (snd kv))) kvs) \<le> m"
    by (cases n) auto
  show ?case
  proof (cases kvs)
    case Nil
    then show ?thesis
      by (simp add: n js_def skip_ws_sep)
  next
    case (Cons kv ys)
    let ?T = "intercalate (js '','') (map member_text kvs) @ 0x7D # rest"
    have el: "parse_members m [] ?T = Some (JObj ([] @ kvs), rest)"
    proof (rule parse_members_text)
      show "parse_value j (JSON_stringify x @ r) = Some (x, r)"
        if "(k, x) \<in> set kvs" and "fuel_of x \<le> j" for k x j r
      proof (rule JObj.IH)
        show "(k, x) \<in> set kvs" by (rule that(1))
        show "x \<in> Basic_BNFs.snds (k, x)" by simp
        show "printable x"
          using that(1) JObj.prems(1) by (auto simp: list_all_iff)
        show "fuel_of x \<le> j" by (rule that(2))
      qed
      show "kvs \<noteq> []" by (simp add: Cons)
      show "list_all (\<lambda>kv. \<not> is_index_key (fst kv) \<and> printable (snd kv)) kvs"
        using JObj.prems(1) by simp
      show "distinct (map fst ([] @ kvs))"
        using JObj.prems(1) by simp
      show "sum_list (map (\<lambda>kv. Suc (fuel_of (snd kv))) kvs) \<le> m" by (rule m)
    qed
    have T: "?T = 0x22 # tl ?T" and sk: "skip_ws ?T = ?T"
      by (simp_all add: Cons intercalate_Cons member_text_def quoteJSON_def skip_ws_def is_ws_def
          del: JSON_stringify.simps intercalate.simps)
    have "parse_value (Suc m) (0x7B # ?T) = Some (JObj kvs, rest)"
      using el by (simp add: sk) (subst T, simp, simp add: T [symmetric])
    then show ?thesis
      by (simp only: stringify_object n append_Cons append_assoc append_Nil)
  qed
qed

lemma intercalate_length:
  assumes "\<And>x. x \<in> set xs \<Longrightarrow> f x \<le> length (g x)" and "sep \<noteq> []"
  shows "sum_list (map (\<lambda>x. Suc (f x)) xs) \<le> Suc (length (intercalate sep (map g xs)))"
  using assms(1)
proof (induction xs)
  case Nil
  then show ?case by simp
next
  case (Cons x xs)
  have "f x \<le> length (g x)"
    using Cons.prems by simp
  moreover have "sum_list (map (\<lambda>x. Suc (f x)) xs) \<le> Suc (length (intercalate sep (map g xs)))"
    using Cons.prems by (intro Cons.IH) simp
  moreover obtain n where "length sep = Suc n"
    using assms(2) by (cases sep) auto
  ultimately show ?case
    by (cases xs) simp_all
qed

lemma fuel_bound: "printable v \<Longrightarrow> fuel_of v \<le> length (JSON_stringify v)"
proof (induction v)
  case (JArr xs)
  have "sum_list (map (\<lambda>x. Suc (fuel_of x)) xs)
          \<le> Suc (length (intercalate (js '','') (map JSON_stringify xs)))"
  proof (rule intercalate_length)
    show "fuel_of x \<le> length (JSON_stringify x)" if "x \<in> set xs" for x
      using that JArr.prems by (intro JArr.IH) (simp_all add: list_all_iff)
    show "js '','' \<noteq> []" by (simp add: js_def)
  qed
  then show ?case
    by (simp add: stringify_array del: JSON_stringify.simps)
next
  case (JObj kvs)
  have "sum_list (map (\<lambda>kv. Suc (fuel_of (snd kv))) kvs)
          \<le> Suc (length (intercalate (js '','') (map member_text kvs)))"
  proof (rule intercalate_length)
    show "fuel_of (snd kv) \<le> length (member_text kv)" if "kv \<in> set kvs" for kv
    proof -
      obtain k x where kv: "kv = (k, x)" by (cases kv)
      have "fuel_of x \<le> length (JSON_stringify x)"
        using that JObj.prems by (intro JObj.IH [of kv]) (auto simp: kv list_all_iff)
      then show ?thesis
        by (simp add: kv member_text_def del: JSON_stringify.simps)
    qed
    show "js '','' \<noteq> []" by (simp add: js_def)
  qed
  then show ?case
    by (simp add: stringify_object del: JSON_stringify.simps)
qed (simp_all add: js_def quoteJSON_def)

lemma JSON_round_trip: "printable v \<Longrightarrow> JSON_parse (JSON_stringify v) = Some v"
proof -
  assume p: "printable v"
  let ?s = "JSON_stringify v"
  have "starts_value (?s @ [])"
    using p by (rule stringify_starts)
  then have "skip_ws ?s = ?s"
    by (simp add: starts_value_skip)
  moreover have "parse_value (Suc (length ?s)) (?s @ []) = Some (v, [])"
    using p fuel_bound [OF p] by (intro parse_stringify) simp_all
  ultimately show ?thesis
    by (simp add: JSON_parse_def skip_ws_def del: JSON_stringify.simps)
qed

lemma well_formed_append: "well_formed a \<Longrightarrow> well_formed b \<Longrightarrow> well_formed (a @ b)"
  by (induction a rule: well_formed.induct) (auto split: list.splits)

lemma well_formed_plain:
  "list_all (\<lambda>u. \<not> is_high u \<and> \<not> is_low u) a \<Longrightarrow> well_formed a"
  by (induction a) simp_all

lemma is_hex_plain: "is_hex u \<Longrightarrow> \<not> is_high u \<and> \<not> is_low u"
  by (auto simp: is_hex_def surrogate_nat word_le_nat_alt)

lemma nibble_bound16: "unat ((w :: unit16) AND 0xF) < 16"
proof -
  have "unat (w AND 15) \<le> unat (15 :: unit16)"
    by (rule word_and_le1 [THEN word_le_nat_alt [THEN iffD1]])
  then show ?thesis by simp
qed

lemma hex4_plain: "list_all (\<lambda>u. \<not> is_high u \<and> \<not> is_low u) (hex4 u)"
  by (simp add: hex4_def is_hex_plain hexdigit_is_hex nibble_bound16)

lemma escape_well_formed: "well_formed (0x5C # 0x75 # hex4 u @ r) = well_formed r"
proof -
  have "well_formed (hex4 u @ r) = well_formed r"
    using hex4_plain [of u] by (induction "hex4 u" arbitrary: r) (simp_all add: hex4_def)
  then show ?thesis
    by (simp add: is_high_def is_low_def)
qed


lemma escape_unit_well_formed:
  assumes "\<not> is_high u" and "\<not> is_low u"
  shows "well_formed (escape_unit u @ r) = well_formed r"
proof (cases "escape_unit u = [u]")
  case True
  with assms show ?thesis by simp
next
  case False
  then consider "escape_unit u = 0x5C # 0x75 # hex4 u"
    | c where "escape_unit u = [0x5C, c]" "c \<in> {0x62, 0x74, 0x6E, 0x66, 0x72, 0x22, 0x5C}"
    by (auto simp: escape_unit_def split: if_splits)
  then show ?thesis
  proof cases
    case 1
    then show ?thesis by (simp only: append_Cons escape_well_formed)
  next
    case 2
    then show ?thesis by (auto simp: is_high_def is_low_def)
  qed
qed

lemma quote_units_well_formed: "well_formed (quote_units s @ r) = well_formed r"
proof (induction s rule: quote_units.induct)
  case 1
  then show ?case by simp
next
  case (2 u us)
  show ?case
  proof (cases "is_high u")
    case True
    show ?thesis
    proof (cases us)
      case Nil
      with True show ?thesis
        by (simp only: quote_units.simps if_True list.case append_Cons append_Nil
            escape_well_formed append_assoc)
    next
      case (Cons v vs)
      show ?thesis
      proof (cases "is_low v")
        case low: True
        from "2.IH"(1) [OF True Cons low] True low show ?thesis
          by (simp add: Cons)
      next
        case notlow: False
        from "2.IH"(2) [OF True Cons notlow] have "well_formed (quote_units us @ r) = well_formed r" .
        moreover have "quote_units (u # us) @ r = 0x5C # 0x75 # hex4 u @ quote_units us @ r"
          using True Cons notlow by simp
        ultimately show ?thesis
          by (simp only: escape_well_formed)
      qed
    qed
  next
    case False
    show ?thesis
    proof (cases "is_low u")
      case True
      from "2.IH"(3) [OF False True] have "well_formed (quote_units us @ r) = well_formed r" .
      moreover have "quote_units (u # us) @ r = 0x5C # 0x75 # hex4 u @ quote_units us @ r"
        using False True by simp
      ultimately show ?thesis
        by (simp only: escape_well_formed)
    next
      case notlow: False
      from "2.IH"(4) [OF False notlow] have "well_formed (quote_units us @ r) = well_formed r" .
      moreover have "quote_units (u # us) @ r = escape_unit u @ quote_units us @ r"
        using False notlow by simp
      ultimately show ?thesis
        by (simp only: escape_unit_well_formed [OF False notlow])
    qed
  qed
qed

lemma quoteJSON_well_formed: "well_formed (quoteJSON s @ r) = well_formed r"
  by (simp add: quoteJSON_def quote_units_well_formed is_high_def is_low_def)

lemma intercalate_well_formed:
  assumes "\<And>x. x \<in> set xs \<Longrightarrow> well_formed x" and "well_formed sep"
  shows "well_formed (intercalate sep xs)"
  using assms(1)
proof (induction xs)
  case Nil
  then show ?case by simp
next
  case (Cons x xs)
  then have "well_formed x" and "well_formed (intercalate sep xs)"
    by simp_all
  with assms(2) show ?case
    by (cases xs) (simp_all add: well_formed_append)
qed

lemma stringify_well_formed: "printable v \<Longrightarrow> well_formed (JSON_stringify v)"
proof (induction v)
  case (JStr s)
  show ?case
    using quoteJSON_well_formed [of s "[]"] by simp
next
  case (JArr xs)
  have "well_formed (intercalate (js '','') (map JSON_stringify xs))"
  proof (rule intercalate_well_formed)
    show "well_formed t" if "t \<in> set (map JSON_stringify xs)" for t
      using that JArr by (auto simp: list_all_iff)
    show "well_formed (js '','')"
      by (simp add: js_def is_high_def is_low_def)
  qed
  then have "well_formed (intercalate (js '','') (map JSON_stringify xs) @ [0x5D])"
    by (intro well_formed_append) (simp_all add: is_high_def is_low_def)
  then show ?case
    by (simp add: stringify_array is_high_def is_low_def del: JSON_stringify.simps)
next
  case (JObj kvs)
  have "well_formed (intercalate (js '','') (map member_text kvs))"
  proof (rule intercalate_well_formed)
    show "well_formed t" if "t \<in> set (map member_text kvs)" for t
    proof -
      from that obtain k x where kx: "(k, x) \<in> set kvs" and t: "t = member_text (k, x)"
        by auto
      from kx JObj.prems have "well_formed (JSON_stringify x)"
        by (intro JObj.IH [of "(k, x)"]) (auto simp: list_all_iff)
      then have "well_formed (js '':'' @ JSON_stringify x)"
        by (simp add: js_def is_high_def is_low_def del: JSON_stringify.simps)
      then show ?thesis
        by (simp add: t member_text_def quoteJSON_well_formed del: JSON_stringify.simps)
    qed
    show "well_formed (js '','')"
      by (simp add: js_def is_high_def is_low_def)
  qed
  then have "well_formed (intercalate (js '','') (map member_text kvs) @ [0x7D])"
    by (intro well_formed_append) (simp_all add: is_high_def is_low_def)
  then show ?case
    by (simp add: stringify_object is_high_def is_low_def del: JSON_stringify.simps)
qed (simp_all add: js_def is_high_def is_low_def)

lemma stored_json_reads_back:
  "printable v \<Longrightarrow> JSON_parse (utf8_decode (utf8_encode (JSON_stringify v))) = Some v"
  by (simp add: utf8_round_trip stringify_well_formed JSON_round_trip del: JSON_stringify.simps)

lemma printable_entry: "printable (staging_entry p h)"
  by (simp add: staging_entry_def js_def is_index_key_def is_digit_def)

lemma printable_commitData:
  "printable index \<Longrightarrow> printable parentCommit \<Longrightarrow>
   printable (commitData_of e message index parentCommit)"
  by (simp add: commitData_of_def or_null_def js_def is_index_key_def is_digit_def)

end
